theory Spec2Isabelle
  imports Main "HOL-Library.Sublist"
begin

section \<open>Strings and the operations of Python's str and re that the code uses\<close>

text \<open>
  A Python string is modelled as a \<open>string\<close>; a \<open>char\<close> stands for a code point below 256.
  The pipeline of \<open>get_clean_content\<close> looks only at the characters named below, at the
  capital letters and at white space.
\<close>

abbreviation newline :: char where "newline \<equiv> CHR 0x0A"
abbreviation bslash :: char where "bslash \<equiv> CHR 0x5C"
abbreviation dquote :: char where "dquote \<equiv> CHR 0x22"
abbreviation lt_sign :: char where "lt_sign \<equiv> CHR 0x3C"
abbreviation gt_sign :: char where "gt_sign \<equiv> CHR 0x3E"
abbreviation slash :: char where "slash \<equiv> CHR 0x2F"
abbreviation blank :: char where "blank \<equiv> CHR 0x20"

text \<open>
  \<open>str.isspace\<close>, which is also the class \<open>\s\<close> of a str pattern and what \<open>str.strip\<close>
  removes: tab, line feed, vertical tab, form feed, carriage return, the four separators
  0x1C to 0x1F, the space, NEL (0x85) and the no-break space (0xA0).
\<close>

definition isspace :: "char \<Rightarrow> bool" where
  "isspace c = (c \<in> set [CHR 0x09, CHR 0x0A, CHR 0x0B, CHR 0x0C, CHR 0x0D,
                          CHR 0x1C, CHR 0x1D, CHR 0x1E, CHR 0x1F, CHR 0x20, CHR 0x85, CHR 0xA0])"

text \<open>The character class \<open>[A-Z]\<close>.\<close>

definition is_upper :: "char \<Rightarrow> bool" where
  "is_upper c = (c \<in> set ''ABCDEFGHIJKLMNOPQRSTUVWXYZ'')"

text \<open>
  \<open>re.sub(pattern, repl, s)\<close> for a pattern that matches no empty string and a replacement
  that is a constant string: the scan goes from left to right; where the pattern matches
  at the current position, the replacement is written and the scan goes on after the
  match; elsewhere the character is copied. The matcher \<open>m\<close> gives the length of the
  match of the pattern at the start of its argument.
\<close>

fun re_sub :: "(string \<Rightarrow> nat option) \<Rightarrow> string \<Rightarrow> string \<Rightarrow> string" where
  "re_sub m r [] = []"
| "re_sub m r (c # cs) =
     (case m (c # cs) of
        None \<Rightarrow> c # re_sub m r cs
      | Some 0 \<Rightarrow> c # re_sub m r cs
      | Some (Suc n) \<Rightarrow> r @ re_sub m r (drop n cs))"

text \<open>\<open>s.replace(old, new)\<close> with a non-empty \<open>old\<close> is the same scan for the literal \<open>old\<close>.\<close>

definition match_literal :: "string \<Rightarrow> string \<Rightarrow> nat option" where
  "match_literal old s = (if prefix old s then Some (length old) else None)"

definition replace :: "string \<Rightarrow> string \<Rightarrow> string \<Rightarrow> string" where
  "replace old new s = re_sub (match_literal old) new s"

text \<open>The pattern \<open><div[^>]*>\<close>: the literal, then everything up to the first \<open>>\<close>.\<close>

definition match_div :: "string \<Rightarrow> nat option" where
  "match_div s =
     (if prefix ''<div'' s \<and> gt_sign \<in> set (drop 4 s)
      then Some (4 + length (takeWhile (\<lambda>c. c \<noteq> gt_sign) (drop 4 s)) + 1)
      else None)"

text \<open>
  The pattern \<open><br\s*/?>\<close>: the literal, the longest run of white space, an optional
  slash, and \<open>>\<close>. No shorter run can match, since what follows it would be white space.
\<close>

definition match_br :: "string \<Rightarrow> nat option" where
  "match_br s =
     (if prefix ''<br'' s then
        (let w = length (takeWhile isspace (drop 3 s)) in
         case dropWhile isspace (drop 3 s) of
           [] \<Rightarrow> None
         | a # rest \<Rightarrow>
             if a = gt_sign then Some (3 + w + 1)
             else if a = slash then
               (case rest of [] \<Rightarrow> None
                | b # _ \<Rightarrow> if b = gt_sign then Some (3 + w + 2) else None)
             else None)
      else None)"

text \<open>The pattern \<open><[^>]*>\<close>.\<close>

definition match_tag :: "string \<Rightarrow> nat option" where
  "match_tag s =
     (case s of [] \<Rightarrow> None
      | c # cs \<Rightarrow>
          if c = lt_sign \<and> gt_sign \<in> set cs
          then Some (1 + length (takeWhile (\<lambda>c. c \<noteq> gt_sign) cs) + 1)
          else None)"

text \<open>
  The patterns \<open>\\\"([A-Z])\\\"\<close> and \<open>\\"([A-Z])\\"\<close> (raw strings) are the same regular
  expression: a backslash, a double quote, a capital letter, a backslash, a double quote.
\<close>

definition match_quoted :: "string \<Rightarrow> nat option" where
  "match_quoted s =
     (case s of
        a # b # c # d # e # _ \<Rightarrow>
          if a = bslash \<and> b = dquote \<and> is_upper c \<and> d = bslash \<and> e = dquote
          then Some 5 else None
      | _ \<Rightarrow> None)"

text \<open>
  The replacement of both is written \<open>'"\1"'\<close>, not a raw string: Python reads \<open>\1\<close> in
  it as the octal escape of the character 0x01, so the replacement is the three
  characters double quote, 0x01, double quote, and refers to no group.
\<close>

definition quoted_repl :: string where
  "quoted_repl = [dquote, CHR 0x01, dquote]"

text \<open>The pattern \<open>\s+\<close>: the longest run of white space, if it is not empty.\<close>

definition match_ws :: "string \<Rightarrow> nat option" where
  "match_ws s =
     (let n = length (takeWhile isspace s) in if 0 < n then Some n else None)"

text \<open>
  The pattern \<open>\n\s*\n+\<close>: a line feed, then the run \<open>w\<close> of white space after it must
  hold a line feed; the greedy \<open>\s*\<close> gives back characters until \<open>\n+\<close> can start,
  which is at the last line feed of \<open>w\<close>, where the match ends.
\<close>

definition match_blank_lines :: "string \<Rightarrow> nat option" where
  "match_blank_lines s =
     (case s of [] \<Rightarrow> None
      | c # cs \<Rightarrow>
          (let w = takeWhile isspace cs in
           if c = newline \<and> newline \<in> set w
           then Some (1 + (length w - length (takeWhile (\<lambda>c. c \<noteq> newline) (rev w))))
           else None))"

text \<open>\<open>s.split(sep)\<close> for a separator of one character, \<open>sep.join(parts)\<close> and \<open>s.strip()\<close>.\<close>

fun split :: "char \<Rightarrow> string \<Rightarrow> string list" where
  "split sep [] = [[]]"
| "split sep (c # cs) =
     (let r = split sep cs in if c = sep then [] # r else (c # hd r) # tl r)"

fun join :: "string \<Rightarrow> string list \<Rightarrow> string" where
  "join sep [] = []"
| "join sep [x] = x"
| "join sep (x # y # ys) = x @ sep @ join sep (y # ys)"

definition strip :: "string \<Rightarrow> string" where
  "strip s = rev (dropWhile isspace (rev (dropWhile isspace s)))"

section \<open>MunicodeClient.get_clean_content\<close>

text \<open>
  The statements of the function body after the guard, in the source's order. Each
  definition is one assignment to \<open>content\<close>.
\<close>

definition strip_markup :: "string \<Rightarrow> string" where
  "strip_markup s =
     re_sub match_tag []
       (re_sub match_br [newline]
         (replace ''</div>'' []
           (re_sub match_div [newline] s)))"

definition unescape :: "string \<Rightarrow> string" where
  "unescape s =
     replace [bslash, dquote] [dquote]
       (replace [bslash, CHR ''n''] [newline]
         (re_sub match_quoted quoted_repl
           (re_sub match_quoted quoted_repl
             (replace ''&nbsp;'' [blank] s))))"

definition normalize_space :: "string \<Rightarrow> string" where
  "normalize_space s =
     re_sub match_blank_lines [newline, newline] (re_sub match_ws [blank] s)"

definition clean_lines :: "string \<Rightarrow> string" where
  "clean_lines s =
     (let lines = map strip (split newline s)
      in join [newline] (filter (\<lambda>line. line \<noteq> []) lines))"

text \<open>\<open>content\<close> is \<open>Optional[str]\<close>; \<open>not content\<close> holds of \<open>None\<close> and of the empty string.\<close>

definition get_clean_content :: "string option \<Rightarrow> string" where
  "get_clean_content content =
     (case content of
        None \<Rightarrow> []
      | Some s \<Rightarrow>
          if s = [] then []
          else strip (clean_lines (normalize_space (unescape (strip_markup s)))))"

section \<open>JSON values and dictionaries\<close>

text \<open>
  What \<open>json.loads\<close> returns: \<open>None\<close>, a bool, a number (an integer here), a string, a
  list or a dict. A dict is an association list read with \<open>map_of\<close>.
\<close>

datatype json =
    JNull
  | JBool bool
  | JInt int
  | JStr string
  | JList "json list"
  | JObj "(string \<times> json) list"

type_synonym dict = "(string \<times> json) list"

text \<open>\<open>d.get(k, default)\<close>; \<open>d.get(k)\<close> is \<open>d.get(k, None)\<close>.\<close>

definition dict_get :: "dict \<Rightarrow> string \<Rightarrow> json \<Rightarrow> json" where
  "dict_get d k dflt = (case map_of d k of None \<Rightarrow> dflt | Some v \<Rightarrow> v)"

text \<open>The truth value Python gives a value in \<open>if v\<close> and \<open>not v\<close>.\<close>

fun truthy :: "json \<Rightarrow> bool" where
  "truthy JNull = False"
| "truthy (JBool b) = b"
| "truthy (JInt i) = (i \<noteq> 0)"
| "truthy (JStr s) = (s \<noteq> [])"
| "truthy (JList xs) = (xs \<noteq> [])"
| "truthy (JObj d) = (d \<noteq> [])"

text \<open>The exceptions (instances of \<open>Exception\<close>) that the modelled code raises or meets.\<close>

datatype error =
    AttributeError
  | FetchError string

section \<open>MunicodeDoc and the record construction of get_chapter_content\<close>

text \<open>
  The dataclass does not check its field types: each field holds the value that
  \<open>doc_data.get\<close> returned, whatever its JSON type.
\<close>

record MunicodeDoc =
  DocType :: json
  IsAmended :: json
  IsUpdated :: json
  CompareStatus :: json
  DocOrderId :: json
  AmendedBy :: json
  Notes :: json
  Drafts :: json
  ChunkGroupStartingNodeId :: json
  NodeDepth :: json
  TitleHtml :: json
  Id :: json
  Title :: json
  Content :: json
  SortDate :: json
  Footnotes :: json

definition make_doc :: "dict \<Rightarrow> MunicodeDoc" where
  "make_doc doc_data =
     \<lparr> DocType = dict_get doc_data ''DocType'' (JInt 0),
       IsAmended = dict_get doc_data ''IsAmended'' (JBool False),
       IsUpdated = dict_get doc_data ''IsUpdated'' (JBool False),
       CompareStatus = dict_get doc_data ''CompareStatus'' (JInt 0),
       DocOrderId = dict_get doc_data ''DocOrderId'' (JInt 0),
       AmendedBy = dict_get doc_data ''AmendedBy'' (JList []),
       Notes = dict_get doc_data ''Notes'' (JList []),
       Drafts = dict_get doc_data ''Drafts'' (JList []),
       ChunkGroupStartingNodeId = dict_get doc_data ''ChunkGroupStartingNodeId'' (JStr []),
       NodeDepth = dict_get doc_data ''NodeDepth'' (JInt 0),
       TitleHtml = dict_get doc_data ''TitleHtml'' (JStr []),
       Id = dict_get doc_data ''Id'' (JStr []),
       Title = dict_get doc_data ''Title'' (JStr []),
       Content = dict_get doc_data ''Content'' (JStr []),
       SortDate = dict_get doc_data ''SortDate'' JNull,
       Footnotes = dict_get doc_data ''Footnotes'' JNull \<rparr>"

text \<open>
  One pass of the loop over \<open>data['Docs']\<close>: an element that is not a dict has no
  \<open>get\<close>, and the call raises AttributeError.
\<close>

fun doc_of_element :: "json \<Rightarrow> error + MunicodeDoc" where
  "doc_of_element (JObj doc_data) = Inr (make_doc doc_data)"
| "doc_of_element _ = Inl AttributeError"

section \<open>MunicodeClient.build_node_id\<close>

text \<open>\<open>if subchapter:\<close> holds of a string that is not empty; \<open>None\<close> and \<open>""\<close> add nothing.\<close>

definition build_node_id :: "string \<Rightarrow> string \<Rightarrow> string option \<Rightarrow> string option \<Rightarrow> string" where
  "build_node_id title chapter subchapter article =
     (let node_id = ''TIT'' @ title @ ''_CH'' @ chapter;
          node_id = (case subchapter of
                       None \<Rightarrow> node_id
                     | Some s \<Rightarrow> if s \<noteq> [] then node_id @ ''_'' @ s else node_id);
          node_id = (case article of
                       None \<Rightarrow> node_id
                     | Some a \<Rightarrow> if a \<noteq> [] then node_id @ ''_'' @ a else node_id)
      in node_id)"

section \<open>The chapter loop of MunicodeFetcher.fetch_all_austin_chapters\<close>

text \<open>
  The records the loop hands to the logger: \<open>Fetching chapter ...\<close> before each call of
  \<open>fetch_and_store_chapter\<close>, \<open>Failed to fetch chapter ...\<close> in the handler, and
  \<open>Processed n unique chapters\<close> after the loop.
\<close>

datatype log_record =
    Info_Fetching string
  | Error_Failed json error
  | Info_Processed nat

text \<open>
  The state the loop works on: the set \<open>processed_chapters\<close>, the records logged so
  far, and everything outside the program (the remote service, the files) as \<open>world\<close>.
\<close>

record 'w run_state =
  processed_chapters :: "string set"
  logged :: "log_record list"
  world :: 'w

text \<open>
  \<open>fetch_and_store_chapter\<close> is a parameter of the loop: called with the chapter key, it
  changes the world and either returns or raises an \<open>Exception\<close>. Only \<open>chapter\<close>
  varies between its calls; the other arguments are constants of the configuration.
  Nothing is assumed about which calls return. The pause \<open>asyncio.sleep(1)\<close> after a
  fetch that returned does not touch the state and is left out.
\<close>

type_synonym 'w fetcher = "string \<Rightarrow> 'w \<Rightarrow> (error + unit) \<times> 'w"

text \<open>\<open>'_'.join(node_id.split('_')[:2])\<close>\<close>

definition base_chapter_of :: "string \<Rightarrow> string" where
  "base_chapter_of node_id = join ''_'' (take 2 (split (CHR ''_'') node_id))"

text \<open>
  The body of the \<open>try\<close> block for one element of \<open>chapters\<close>. The result is the
  exception the block raised, if any, and the state it left. \<open>continue\<close> leaves the
  block without an exception. \<open>node_id.split\<close> raises AttributeError when the value
  under \<open>Id\<close> is not a string.
\<close>

definition try_chapter ::
  "'w fetcher \<Rightarrow> dict \<Rightarrow> 'w run_state \<Rightarrow> error option \<times> 'w run_state" where
  "try_chapter fetch chapter st =
     (let node_id = dict_get chapter ''Id'' (JStr []) in
      if \<not> truthy node_id then (None, st)
      else
        (case node_id of
           JStr nid \<Rightarrow>
             (let base_chapter = base_chapter_of nid in
              if base_chapter \<in> processed_chapters st then (None, st)
              else if length (split (CHR ''_'') nid) > 2 then (None, st)
              else
                (let st1 = st\<lparr>logged := logged st @ [Info_Fetching base_chapter]\<rparr>;
                     (res, w) = fetch base_chapter (world st1)
                 in case res of
                      Inl e \<Rightarrow> (Some e, st1\<lparr>world := w\<rparr>)
                    | Inr _ \<Rightarrow>
                        (None, st1\<lparr>world := w,
                                    processed_chapters :=
                                      insert base_chapter (processed_chapters st1)\<rparr>)))
         | _ \<Rightarrow> (Some AttributeError, st)))"

text \<open>
  One pass of the \<open>for\<close> loop: the \<open>try\<close> block and its handler
  \<open>except Exception\<close>, which logs the failure and continues.
\<close>

definition loop_step :: "'w fetcher \<Rightarrow> dict \<Rightarrow> 'w run_state \<Rightarrow> error + 'w run_state" where
  "loop_step fetch chapter st =
     (case try_chapter fetch chapter st of
        (None, st') \<Rightarrow> Inr st'
      | (Some e, st') \<Rightarrow>
          Inr (st'\<lparr>logged := logged st' @
                      [Error_Failed (dict_get chapter ''Id'' (JStr [])) e]\<rparr>))"

fun fetch_loop ::
  "'w fetcher \<Rightarrow> dict list \<Rightarrow> 'w run_state \<Rightarrow> error + 'w run_state" where
  "fetch_loop fetch [] st = Inr st"
| "fetch_loop fetch (chapter # chapters) st =
     (case loop_step fetch chapter st of
        Inl e \<Rightarrow> Inl e
      | Inr st' \<Rightarrow> fetch_loop fetch chapters st')"

text \<open>
  Lines 179 to 214: the empty set, the loop, and the record of the count
  \<open>len(processed_chapters)\<close>.
\<close>

definition fetch_chapters :: "'w fetcher \<Rightarrow> dict list \<Rightarrow> 'w \<Rightarrow> error + 'w run_state" where
  "fetch_chapters fetch chapters w =
     (case fetch_loop fetch chapters
             \<lparr>processed_chapters = {}, logged = [], world = w\<rparr> of
        Inl e \<Rightarrow> Inl e
      | Inr st \<Rightarrow>
          Inr (st\<lparr>logged := logged st @ [Info_Processed (card (processed_chapters st))]\<rparr>))"

text \<open>The keys the loop asked for, in the order of the calls, read off the log.\<close>

fun fetched_keys :: "log_record list \<Rightarrow> string list" where
  "fetched_keys [] = []"
| "fetched_keys (Info_Fetching k # rs) = k # fetched_keys rs"
| "fetched_keys (_ # rs) = fetched_keys rs"

section \<open>Notions used to state the properties\<close>

text \<open>The text of a node's id: the string under \<open>Id\<close>, empty when there is none.\<close>

definition id_text :: "dict \<Rightarrow> string" where
  "id_text chapter = (case dict_get chapter ''Id'' (JStr []) of JStr s \<Rightarrow> s | _ \<Rightarrow> [])"

text \<open>A node is the root of chapter \<open>k\<close>: its id is the non-empty string \<open>k\<close> of at most two segments.\<close>

definition is_root :: "dict \<Rightarrow> string \<Rightarrow> bool" where
  "is_root chapter k =
     (dict_get chapter ''Id'' (JStr []) = JStr k \<and> k \<noteq> [] \<and> length (split (CHR ''_'') k) \<le> 2)"

text \<open>
  The deduplication as the specification words it, on the ids alone: go through the ids
  in order; skip an empty id, an id of more than two segments, and a key already
  emitted; emit the key otherwise.
\<close>

fun dedupe_from :: "string set \<Rightarrow> string list \<Rightarrow> string list" where
  "dedupe_from seen [] = []"
| "dedupe_from seen (i # ids) =
     (if i = [] then dedupe_from seen ids
      else if length (split (CHR ''_'') i) > 2 then dedupe_from seen ids
      else if base_chapter_of i \<in> seen then dedupe_from seen ids
      else base_chapter_of i # dedupe_from (insert (base_chapter_of i) seen) ids)"

definition dedupe :: "string list \<Rightarrow> string list" where
  "dedupe ids = dedupe_from {} ids"

text \<open>
  A node whose id is the given string, a fetcher that always returns, and a fetcher that
  raises for one key and returns for the others.
\<close>

definition node :: "string \<Rightarrow> dict" where
  "node i = [(''Id'', JStr i)]"

definition fetch_ok :: "unit fetcher" where
  "fetch_ok k w = (Inr (), w)"

definition fetch_failing_on :: "string \<Rightarrow> unit fetcher" where
  "fetch_failing_on bad k w =
     (if k = bad then (Inl (FetchError ''unreachable''), w) else (Inr (), w))"

text \<open>The keys a run asked for.\<close>

definition emitted_keys :: "error + 'w run_state \<Rightarrow> string list" where
  "emitted_keys r = (case r of Inl e \<Rightarrow> [] | Inr st \<Rightarrow> fetched_keys (logged st))"


definition always_succeeds :: "'w fetcher \<Rightarrow> bool" where
  "always_succeeds fetch = (\<forall>k w. \<exists>w'. fetch k w = (Inr (), w'))"

text \<open>
  The angle brackets, and a text in which no \<open><\<close> is followed, anywhere later, by a
  \<open>>\<close>: none of the four tag patterns matches in such a text.
\<close>

definition is_angle :: "char \<Rightarrow> bool" where
  "is_angle c = (c = lt_sign \<or> c = gt_sign)"

definition no_tag :: "string \<Rightarrow> bool" where
  "no_tag s = (gt_sign \<notin> set (dropWhile (\<lambda>c. c \<noteq> lt_sign) s))"


section \<open>The document record and the node id\<close>

text \<open>
  C8. For every element of the response that is a dict, the record is built, and each
  field whose key is missing has its default: 0 for the integer fields, False for the
  boolean fields, the empty list for the sequence fields, the empty string for the string
  fields, and None for SortDate and Footnotes.
\<close>

theorem make_doc_defaults:
  "doc_of_element (JObj d) = Inr (make_doc d)
   \<and> (map_of d ''DocType'' = None \<longrightarrow> DocType (make_doc d) = JInt 0)
   \<and> (map_of d ''IsAmended'' = None \<longrightarrow> IsAmended (make_doc d) = JBool False)
   \<and> (map_of d ''IsUpdated'' = None \<longrightarrow> IsUpdated (make_doc d) = JBool False)
   \<and> (map_of d ''CompareStatus'' = None \<longrightarrow> CompareStatus (make_doc d) = JInt 0)
   \<and> (map_of d ''DocOrderId'' = None \<longrightarrow> DocOrderId (make_doc d) = JInt 0)
   \<and> (map_of d ''AmendedBy'' = None \<longrightarrow> AmendedBy (make_doc d) = JList [])
   \<and> (map_of d ''Notes'' = None \<longrightarrow> Notes (make_doc d) = JList [])
   \<and> (map_of d ''Drafts'' = None \<longrightarrow> Drafts (make_doc d) = JList [])
   \<and> (map_of d ''ChunkGroupStartingNodeId'' = None \<longrightarrow>
        ChunkGroupStartingNodeId (make_doc d) = JStr [])
   \<and> (map_of d ''NodeDepth'' = None \<longrightarrow> NodeDepth (make_doc d) = JInt 0)
   \<and> (map_of d ''TitleHtml'' = None \<longrightarrow> TitleHtml (make_doc d) = JStr [])
   \<and> (map_of d ''Id'' = None \<longrightarrow> Id (make_doc d) = JStr [])
   \<and> (map_of d ''Title'' = None \<longrightarrow> Title (make_doc d) = JStr [])
   \<and> (map_of d ''Content'' = None \<longrightarrow> Content (make_doc d) = JStr [])
   \<and> (map_of d ''SortDate'' = None \<longrightarrow> SortDate (make_doc d) = JNull)
   \<and> (map_of d ''Footnotes'' = None \<longrightarrow> Footnotes (make_doc d) = JNull)"
  by (simp add: make_doc_def dict_get_def)

text \<open>An element that has only \<open>Id\<close> and \<open>NodeDepth\<close>: every other field is missing.\<close>

theorem make_doc_defaults_witness:
  "map_of [(''Id'', JStr ''TIT25LADE''), (''NodeDepth'', JInt 1)] ''DocType'' = None
   \<and> map_of [(''Id'', JStr ''TIT25LADE''), (''NodeDepth'', JInt 1)] ''SortDate'' = None
   \<and> doc_of_element (JObj [(''Id'', JStr ''TIT25LADE''), (''NodeDepth'', JInt 1)]) =
       Inr \<lparr> DocType = JInt 0, IsAmended = JBool False, IsUpdated = JBool False,
             CompareStatus = JInt 0, DocOrderId = JInt 0, AmendedBy = JList [],
             Notes = JList [], Drafts = JList [], ChunkGroupStartingNodeId = JStr [],
             NodeDepth = JInt 1, TitleHtml = JStr [], Id = JStr ''TIT25LADE'',
             Title = JStr [], Content = JStr [], SortDate = JNull, Footnotes = JNull \<rparr>"
  using make_doc_defaults [of "[(''Id'', JStr ''TIT25LADE''), (''NodeDepth'', JInt 1)]"]
  by (simp add: make_doc_def dict_get_def)

text \<open>
  C9, as the code has it. \<open>build_node_id("25LADE", "25-2ZO")\<close> is
  \<open>"TIT25LADE_CH25-2ZO"\<close>, and with a subchapter and an article that are both supplied
  and not empty, the result is \<open>TIT<title>_CH<chapter>\<close>, an underscore, the subchapter,
  an underscore, the article.
\<close>

theorem build_node_id_both:
  "build_node_id ''25LADE'' ''25-2ZO'' None None = ''TIT25LADE_CH25-2ZO''
   \<and> (s \<noteq> [] \<and> a \<noteq> [] \<longrightarrow>
        build_node_id title chapter (Some s) (Some a)
          = ''TIT'' @ title @ ''_CH'' @ chapter @ ''_'' @ s @ ''_'' @ a)"
  by (simp add: build_node_id_def)

theorem build_node_id_both_witness:
  "''SUBCHAPTER'' \<noteq> [] \<and> ''ART2'' \<noteq> []
   \<and> build_node_id ''25LADE'' ''25-2ZO'' (Some ''SUBCHAPTER'') (Some ''ART2'')
       = ''TIT25LADE_CH25-2ZO_SUBCHAPTER_ART2''"
  using build_node_id_both [of "''SUBCHAPTER''" "''ART2''" "''25LADE''" "''25-2ZO''"]
  by simp

text \<open>
  A subchapter that is supplied as the empty string is not appended: the result has one
  underscore before the article, not two.
\<close>

theorem build_node_id_empty_counterexample:
  "build_node_id ''25LADE'' ''25-2ZO'' (Some []) (Some ''ART2'') = ''TIT25LADE_CH25-2ZO_ART2''
   \<and> build_node_id ''25LADE'' ''25-2ZO'' (Some []) (Some ''ART2'')
       \<noteq> ''TIT'' @ ''25LADE'' @ ''_CH'' @ ''25-2ZO'' @ ''_'' @ [] @ ''_'' @ ''ART2''"
  by (simp add: build_node_id_def)

section \<open>The content cleaner at the examples of the specification\<close>

text \<open>
  C2. The specification expects \<open>clean("<div>A</div><br>B")\<close> to be A, a line feed, B.
  The substitution of \<open>\s+\<close> by a space also replaces the line feeds that the tags were
  turned into, so the code returns A, a space, B.
\<close>

theorem clean_div_br_example:
  "get_clean_content (Some ''<div>A</div><br>B'') = ''A B''
   \<and> get_clean_content (Some ''<div>A</div><br>B'') \<noteq> [CHR ''A'', newline, CHR ''B'']"
  by code_simp

text \<open>
  C3. The specification expects the letter between the escaped quotes to be kept. With
  one backslash before each quote the code puts the character 0x01 in place of the
  letter; with two backslashes before each quote the pattern does not match, and one
  backslash of each pair stays.
\<close>

theorem clean_quoted_letter_example:
  "get_clean_content
     (Some (''Value '' @ [bslash, dquote, CHR ''P'', bslash, dquote] @ '' here''))
     = ''Value '' @ [dquote, CHR 0x01, dquote] @ '' here''
   \<and> get_clean_content
       (Some (''Value '' @ [bslash, bslash, dquote, CHR ''P'', bslash, bslash, dquote] @ '' here''))
     = ''Value '' @ [bslash, dquote, CHR ''P'', bslash, dquote] @ '' here''
   \<and> get_clean_content
       (Some (''Value '' @ [bslash, dquote, CHR ''P'', bslash, dquote] @ '' here''))
     \<noteq> ''Value '' @ [dquote, CHR ''P'', dquote] @ '' here''"
  by code_simp

section \<open>The chapter loop\<close>

subsection \<open>Splitting and joining an id\<close>

lemma split_nonempty: "split sep s \<noteq> []"
  by (induction s) (auto simp: Let_def)

lemma join_split: "join [sep] (split sep s) = s"
proof (induction s)
  case Nil
  show ?case by simp
next
  case (Cons c cs)
  obtain w ws where r: "split sep cs = w # ws"
    using split_nonempty [of sep cs] by (cases "split sep cs") auto
  from Cons r show ?case
    by (cases ws) (auto simp: Let_def)
qed

lemma base_chapter_root: "length (split (CHR ''_'') k) \<le> 2 \<Longrightarrow> base_chapter_of k = k"
  using join_split [of "CHR ''_''" k] by (simp add: base_chapter_of_def)

lemma split_no_sep: "sep \<notin> set s \<Longrightarrow> split sep s = [s]"
  by (induction s) (auto simp: Let_def)

subsection \<open>One pass of the loop, case by case\<close>

lemma fetched_keys_append: "fetched_keys (xs @ ys) = fetched_keys xs @ fetched_keys ys"
  by (induction xs rule: fetched_keys.induct) auto

lemma loop_step_total: "\<exists>st'. loop_step fetch ch st = Inr st'"
  by (simp add: loop_step_def split: prod.splits option.splits)

lemma fetch_loop_total: "\<exists>st'. fetch_loop fetch chs st = Inr st'"
proof (induction chs arbitrary: st)
  case Nil
  show ?case by simp
next
  case (Cons ch chs)
  obtain s1 where "loop_step fetch ch st = Inr s1" using loop_step_total by blast
  with Cons show ?case by simp
qed

lemma fetch_loop_append:
  "fetch_loop fetch (xs @ ys) st =
     (case fetch_loop fetch xs st of Inl e \<Rightarrow> Inl e | Inr st' \<Rightarrow> fetch_loop fetch ys st')"
  by (induction xs arbitrary: st) (auto split: sum.splits)

lemma loop_step_skip:
  "\<not> truthy (dict_get ch ''Id'' (JStr [])) \<Longrightarrow> loop_step fetch ch st = Inr st"
  by (simp add: loop_step_def try_chapter_def)

lemma loop_step_processed:
  "dict_get ch ''Id'' (JStr []) = JStr nid \<Longrightarrow> base_chapter_of nid \<in> processed_chapters st
    \<Longrightarrow> loop_step fetch ch st = Inr st"
  by (simp add: loop_step_def try_chapter_def Let_def)

lemma loop_step_descendant:
  "dict_get ch ''Id'' (JStr []) = JStr nid \<Longrightarrow> length (split (CHR ''_'') nid) > 2
    \<Longrightarrow> loop_step fetch ch st = Inr st"
  by (simp add: loop_step_def try_chapter_def Let_def)

lemma loop_step_not_str:
  "truthy v \<Longrightarrow> dict_get ch ''Id'' (JStr []) = v  \<Longrightarrow> \<forall>s. v \<noteq> JStr s
    \<Longrightarrow> loop_step fetch ch st = Inr (st\<lparr>logged := logged st @ [Error_Failed v AttributeError]\<rparr>)"
  by (cases v) (auto simp add: loop_step_def try_chapter_def Let_def)

lemma loop_step_ok:
  "is_root ch k \<Longrightarrow> k \<notin> processed_chapters st \<Longrightarrow> fetch k (world st) = (Inr u, w)
    \<Longrightarrow> loop_step fetch ch st =
          Inr (st\<lparr>logged := logged st @ [Info_Fetching k], world := w,
                   processed_chapters := insert k (processed_chapters st)\<rparr>)"
  by (simp add: loop_step_def try_chapter_def Let_def is_root_def base_chapter_root)

lemma loop_step_fail:
  "is_root ch k \<Longrightarrow> k \<notin> processed_chapters st \<Longrightarrow> fetch k (world st) = (Inl e, w)
    \<Longrightarrow> loop_step fetch ch st =
          Inr (st\<lparr>logged := logged st @ [Info_Fetching k, Error_Failed (JStr k) e], world := w\<rparr>)"
  by (simp add: loop_step_def try_chapter_def Let_def is_root_def base_chapter_root)


lemma loop_step_emits:
  assumes "loop_step fetch ch st = Inr s1"
  shows "fetched_keys (logged s1) =
           fetched_keys (logged st) @
             (if id_text ch \<noteq> [] \<and> length (split (CHR ''_'') (id_text ch)) \<le> 2
                 \<and> base_chapter_of (id_text ch) \<notin> processed_chapters st
              then [base_chapter_of (id_text ch)] else [])"
    and "processed_chapters s1 =
           (if id_text ch \<noteq> [] \<and> length (split (CHR ''_'') (id_text ch)) \<le> 2
               \<and> base_chapter_of (id_text ch) \<notin> processed_chapters st
               \<and> \<not> isl (fst (fetch (base_chapter_of (id_text ch)) (world st)))
            then insert (base_chapter_of (id_text ch)) (processed_chapters st)
            else processed_chapters st)"
proof -
  let ?i = "id_text ch"
  have "fetched_keys (logged s1) =
           fetched_keys (logged st) @
             (if id_text ch \<noteq> [] \<and> length (split (CHR ''_'') (id_text ch)) \<le> 2
                 \<and> base_chapter_of (id_text ch) \<notin> processed_chapters st
              then [base_chapter_of (id_text ch)] else [])
        \<and> processed_chapters s1 =
           (if id_text ch \<noteq> [] \<and> length (split (CHR ''_'') (id_text ch)) \<le> 2
               \<and> base_chapter_of (id_text ch) \<notin> processed_chapters st
               \<and> \<not> isl (fst (fetch (base_chapter_of (id_text ch)) (world st)))
            then insert (base_chapter_of (id_text ch)) (processed_chapters st)
            else processed_chapters st)"
  proof (cases "?i \<noteq> [] \<and> length (split (CHR ''_'') ?i) \<le> 2
                 \<and> base_chapter_of ?i \<notin> processed_chapters st")
    case True
    then have idv: "dict_get ch ''Id'' (JStr []) = JStr ?i"
      by (auto simp: id_text_def split: json.splits)
    with True have root: "is_root ch ?i" and fresh: "?i \<notin> processed_chapters st"
      and base: "base_chapter_of ?i = ?i"
      by (auto simp: is_root_def base_chapter_root)
    obtain res w where f: "fetch ?i (world st) = (res, w)" by (cases "fetch ?i (world st)")
    show ?thesis
    proof (cases res)
      case (Inl e)
      have "loop_step fetch ch st =
              Inr (st\<lparr>logged := logged st @ [Info_Fetching ?i, Error_Failed (JStr ?i) e],
                       world := w\<rparr>)"
        using root fresh f [unfolded Inl] by (rule loop_step_fail)
      with assms True base f Inl show ?thesis by (auto simp: fetched_keys_append)
    next
      case (Inr u)
      have "loop_step fetch ch st =
              Inr (st\<lparr>logged := logged st @ [Info_Fetching ?i], world := w,
                   processed_chapters := insert ?i (processed_chapters st)\<rparr>)"
        using root fresh f [unfolded Inr] by (rule loop_step_ok)
      with assms True base f Inr show ?thesis by (auto simp: fetched_keys_append)
    qed
  next
    case False
    have "fetched_keys (logged s1) = fetched_keys (logged st)
           \<and> processed_chapters s1 = processed_chapters st"
    proof (cases "dict_get ch ''Id'' (JStr [])")
      case (JStr nid)
      then have "?i = nid" by (simp add: id_text_def)
      with False JStr have "loop_step fetch ch st = Inr st"
        by (auto simp: loop_step_def try_chapter_def Let_def)
      with assms show ?thesis by simp
    qed (use assms in \<open>auto simp: loop_step_def try_chapter_def Let_def fetched_keys_append split: if_splits\<close>)
    with False show ?thesis by auto
  qed
  then show "fetched_keys (logged s1) =
           fetched_keys (logged st) @
             (if id_text ch \<noteq> [] \<and> length (split (CHR ''_'') (id_text ch)) \<le> 2
                 \<and> base_chapter_of (id_text ch) \<notin> processed_chapters st
              then [base_chapter_of (id_text ch)] else [])"
    and "processed_chapters s1 =
           (if id_text ch \<noteq> [] \<and> length (split (CHR ''_'') (id_text ch)) \<le> 2
               \<and> base_chapter_of (id_text ch) \<notin> processed_chapters st
               \<and> \<not> isl (fst (fetch (base_chapter_of (id_text ch)) (world st)))
            then insert (base_chapter_of (id_text ch)) (processed_chapters st)
            else processed_chapters st)"
    by blast+
qed



subsection \<open>The whole loop\<close>



lemma fetch_loop_dedupe:
  assumes ok: "always_succeeds fetch"
  shows "fetch_loop fetch chs st = Inr st' \<Longrightarrow>
           fetched_keys (logged st') =
             fetched_keys (logged st) @ dedupe_from (processed_chapters st) (map id_text chs)
           \<and> processed_chapters st' =
               processed_chapters st \<union> set (dedupe_from (processed_chapters st) (map id_text chs))"
proof (induction chs arbitrary: st)
  case Nil
  then show ?case by simp
next
  case (Cons ch chs)
  obtain s1 where s1: "loop_step fetch ch st = Inr s1" using loop_step_total by blast
  with Cons.prems have rest: "fetch_loop fetch chs s1 = Inr st'" by simp
  note IH = Cons.IH [OF rest]
  let ?i = "id_text ch"
  show ?case
  proof (cases "?i \<noteq> [] \<and> length (split (CHR ''_'') ?i) \<le> 2
                 \<and> base_chapter_of ?i \<notin> processed_chapters st")
    case True
    then have idv: "dict_get ch ''Id'' (JStr []) = JStr ?i"
      by (auto simp: id_text_def split: json.splits)
    with True have root: "is_root ch ?i" and fresh: "?i \<notin> processed_chapters st"
      and base: "base_chapter_of ?i = ?i"
      by (auto simp: is_root_def base_chapter_root)
    obtain w where fw: "fetch ?i (world st) = (Inr (), w)"
      using ok unfolding always_succeeds_def by blast
    have "loop_step fetch ch st =
            Inr (st\<lparr>logged := logged st @ [Info_Fetching ?i], world := w,
                   processed_chapters := insert ?i (processed_chapters st)\<rparr>)"
      using root fresh fw by (rule loop_step_ok)
    with s1 have "s1 = st\<lparr>logged := logged st @ [Info_Fetching ?i], world := w,
                   processed_chapters := insert ?i (processed_chapters st)\<rparr>" by simp
    with IH True base show ?thesis by (simp add: fetched_keys_append)
  next
    case False
    have "fetched_keys (logged s1) = fetched_keys (logged st)
           \<and> processed_chapters s1 = processed_chapters st"
    proof (cases "dict_get ch ''Id'' (JStr [])")
      case (JStr nid)
      then have "?i = nid" by (simp add: id_text_def)
      with False JStr have "loop_step fetch ch st = Inr st"
        by (auto simp: loop_step_def try_chapter_def Let_def)
      with s1 show ?thesis by simp
    qed (use s1 in \<open>auto simp: loop_step_def try_chapter_def Let_def fetched_keys_append split: if_splits\<close>)
    with IH False show ?thesis by auto
  qed
qed


lemma emitted_keys_fetch_chapters:
  "fetch_loop fetch chapters \<lparr>processed_chapters = {}, logged = [], world = w\<rparr> = Inr st
    \<Longrightarrow> emitted_keys (fetch_chapters fetch chapters w) = fetched_keys (logged st)"
  by (simp add: fetch_chapters_def emitted_keys_def fetched_keys_append)

lemma dedupe_example:
  "dedupe [''TIT1_CH1'', ''TIT1_CH1_SUBA'', ''TIT1_CH1_SUBA_ART1'', ''TIT1_CH2'', ''TIT1_CH1'']
     = [''TIT1_CH1'', ''TIT1_CH2'']"
  by (simp add: dedupe_def base_chapter_of_def Let_def)


lemma map_id_text_node: "map id_text (map node ids) = ids"
  by (induction ids) (auto simp: id_text_def node_def dict_get_def)


text \<open>
  C1, as the code has it. A node sends its chapter key (the first two segments of its id)
  to the fetcher when its id is a non-empty string of at most two segments and the key is
  not in \<open>processed_chapters\<close>; the key enters \<open>processed_chapters\<close> only when the
  fetch returns, so the loop skips the keys already fetched with success. When no fetch
  fails, the keys fetched are those of the deduplication of the specification, in
  first-seen order, and for the ids TIT1_CH1, TIT1_CH1_SUBA, TIT1_CH1_SUBA_ART1,
  TIT1_CH2, TIT1_CH1 they are TIT1_CH1, TIT1_CH2.
\<close>

theorem dedup_first_seen_order:
  "(always_succeeds fetch \<longrightarrow>
      emitted_keys (fetch_chapters fetch chapters w) = dedupe (map id_text chapters))
   \<and> dedupe [''TIT1_CH1'', ''TIT1_CH1_SUBA'', ''TIT1_CH1_SUBA_ART1'', ''TIT1_CH2'', ''TIT1_CH1'']
       = [''TIT1_CH1'', ''TIT1_CH2'']
   \<and> (loop_step fetch ch st = Inr s1 \<longrightarrow>
        fetched_keys (logged s1) =
          fetched_keys (logged st) @
            (if id_text ch \<noteq> [] \<and> length (split (CHR ''_'') (id_text ch)) \<le> 2
                \<and> base_chapter_of (id_text ch) \<notin> processed_chapters st
             then [base_chapter_of (id_text ch)] else [])
        \<and> processed_chapters s1 =
           (if id_text ch \<noteq> [] \<and> length (split (CHR ''_'') (id_text ch)) \<le> 2
               \<and> base_chapter_of (id_text ch) \<notin> processed_chapters st
               \<and> \<not> isl (fst (fetch (base_chapter_of (id_text ch)) (world st)))
            then insert (base_chapter_of (id_text ch)) (processed_chapters st)
            else processed_chapters st))"
proof (intro conjI impI)
  assume ok: "always_succeeds fetch"
  obtain st where run: "fetch_loop fetch chapters \<lparr>processed_chapters = {}, logged = [], world = w\<rparr> = Inr st"
    using fetch_loop_total by blast
  from fetch_loop_dedupe [OF ok run] emitted_keys_fetch_chapters [OF run]
  show "emitted_keys (fetch_chapters fetch chapters w) = dedupe (map id_text chapters)"
    by (simp add: dedupe_def)
next
  show "dedupe [''TIT1_CH1'', ''TIT1_CH1_SUBA'', ''TIT1_CH1_SUBA_ART1'', ''TIT1_CH2'', ''TIT1_CH1'']
       = [''TIT1_CH1'', ''TIT1_CH2'']"
    by (rule dedupe_example)
next
  assume "loop_step fetch ch st = Inr s1"
  then show "fetched_keys (logged s1) =
          fetched_keys (logged st) @
            (if id_text ch \<noteq> [] \<and> length (split (CHR ''_'') (id_text ch)) \<le> 2
                \<and> base_chapter_of (id_text ch) \<notin> processed_chapters st
             then [base_chapter_of (id_text ch)] else [])"
    by (rule loop_step_emits(1))
next
  assume "loop_step fetch ch st = Inr s1"
  then show "processed_chapters s1 =
           (if id_text ch \<noteq> [] \<and> length (split (CHR ''_'') (id_text ch)) \<le> 2
               \<and> base_chapter_of (id_text ch) \<notin> processed_chapters st
               \<and> \<not> isl (fst (fetch (base_chapter_of (id_text ch)) (world st)))
            then insert (base_chapter_of (id_text ch)) (processed_chapters st)
            else processed_chapters st)"
    by (rule loop_step_emits(2))
qed

theorem dedup_first_seen_order_witness:
  "always_succeeds fetch_ok
   \<and> emitted_keys
       (fetch_chapters fetch_ok
          (map node [''TIT1_CH1'', ''TIT1_CH1_SUBA'', ''TIT1_CH1_SUBA_ART1'', ''TIT1_CH2'',
                     ''TIT1_CH1'']) ())
       = [''TIT1_CH1'', ''TIT1_CH2'']
   \<and> loop_step fetch_ok (node ''TIT1_CH2'')
        \<lparr>processed_chapters = {''TIT1_CH1''}, logged = [Info_Fetching ''TIT1_CH1''], world = ()\<rparr>
       = Inr \<lparr>processed_chapters = {''TIT1_CH2'', ''TIT1_CH1''},
               logged = [Info_Fetching ''TIT1_CH1'', Info_Fetching ''TIT1_CH2''], world = ()\<rparr>"
proof -
  have ok: "always_succeeds fetch_ok"
    by (simp add: always_succeeds_def fetch_ok_def)
  have "emitted_keys
       (fetch_chapters fetch_ok
          (map node [''TIT1_CH1'', ''TIT1_CH1_SUBA'', ''TIT1_CH1_SUBA_ART1'', ''TIT1_CH2'',
                     ''TIT1_CH1'']) ())
       = [''TIT1_CH1'', ''TIT1_CH2'']"
    using ok dedup_first_seen_order
      [of fetch_ok "map node [''TIT1_CH1'', ''TIT1_CH1_SUBA'', ''TIT1_CH1_SUBA_ART1'',
                              ''TIT1_CH2'', ''TIT1_CH1'']" "()"]
    by (simp only: map_id_text_node)
  moreover have "loop_step fetch_ok (node ''TIT1_CH2'')
        \<lparr>processed_chapters = {''TIT1_CH1''}, logged = [Info_Fetching ''TIT1_CH1''], world = ()\<rparr>
       = Inr \<lparr>processed_chapters = {''TIT1_CH2'', ''TIT1_CH1''},
               logged = [Info_Fetching ''TIT1_CH1'', Info_Fetching ''TIT1_CH2''], world = ()\<rparr>"
    by (simp add: loop_step_def try_chapter_def dict_get_def node_def fetch_ok_def
        base_chapter_of_def Let_def)
  ultimately show ?thesis using ok by simp
qed

text \<open>
  A key whose fetch failed is not skipped at its next occurrence: with a fetcher that
  fails for TIT1_CH1, the ids of the example give three calls, not two.
\<close>

theorem dedup_failed_fetch_counterexample:
  "emitted_keys
     (fetch_chapters (fetch_failing_on ''TIT1_CH1'')
        (map node [''TIT1_CH1'', ''TIT1_CH1_SUBA'', ''TIT1_CH1_SUBA_ART1'', ''TIT1_CH2'',
                   ''TIT1_CH1'']) ())
     = [''TIT1_CH1'', ''TIT1_CH2'', ''TIT1_CH1'']"
  by (simp add: emitted_keys_def fetch_chapters_def loop_step_def try_chapter_def
      dict_get_def node_def fetch_failing_on_def base_chapter_of_def Let_def)

text \<open>
  C6, as the code has it. A node whose id is empty, missing or otherwise false is
  skipped without error: the pass leaves the state as it is (no key, no log record), and
  the loop over a listing that contains the node is the loop over the listing without
  it. A non-empty id that contains no underscore is not skipped: it is its own key and
  is fetched, unless it is already in \<open>processed_chapters\<close>.
\<close>

theorem empty_id_skipped:
  "(\<not> truthy (dict_get ch ''Id'' (JStr [])) \<longrightarrow>
      loop_step fetch ch st = Inr st
      \<and> fetch_loop fetch (pre @ ch # post) st0 = fetch_loop fetch (pre @ post) st0)
   \<and> (dict_get ch ''Id'' (JStr []) = JStr nid \<and> nid \<noteq> [] \<and> CHR ''_'' \<notin> set nid
        \<and> nid \<notin> processed_chapters st \<longrightarrow>
      emitted_keys (loop_step fetch ch st) = fetched_keys (logged st) @ [nid])"
proof (intro conjI impI)
  assume f: "\<not> truthy (dict_get ch ''Id'' (JStr []))"
  then show "loop_step fetch ch st = Inr st" by (rule loop_step_skip)
  have "\<And>s. loop_step fetch ch s = Inr s" using f by (rule loop_step_skip)
  then show "fetch_loop fetch (pre @ ch # post) st0 = fetch_loop fetch (pre @ post) st0"
    by (simp add: fetch_loop_append split: sum.splits)
next
  assume a: "dict_get ch ''Id'' (JStr []) = JStr nid \<and> nid \<noteq> [] \<and> CHR ''_'' \<notin> set nid
        \<and> nid \<notin> processed_chapters st"
  then have i: "id_text ch = nid" by (simp add: id_text_def)
  from a have sp: "split (CHR ''_'') nid = [nid]" by (simp add: split_no_sep)
  then have b: "base_chapter_of nid = nid" by (simp add: base_chapter_of_def)
  obtain s1 where s1: "loop_step fetch ch st = Inr s1" using loop_step_total by blast
  from loop_step_emits(1) [OF s1] a i sp b
  have "fetched_keys (logged s1) = fetched_keys (logged st) @ [nid]" by simp
  with s1 show "emitted_keys (loop_step fetch ch st) = fetched_keys (logged st) @ [nid]"
    by (simp add: emitted_keys_def)
qed

theorem empty_id_skipped_witness:
  "\<not> truthy (dict_get (node []) ''Id'' (JStr []))
   \<and> fetch_loop fetch_ok ([node ''TIT1_CH1''] @ node [] # [node ''TIT1_CH2''])
        \<lparr>processed_chapters = {}, logged = [], world = ()\<rparr>
     = fetch_loop fetch_ok ([node ''TIT1_CH1''] @ [node ''TIT1_CH2''])
        \<lparr>processed_chapters = {}, logged = [], world = ()\<rparr>
   \<and> emitted_keys (loop_step fetch_ok (node ''TIT25LADE'')
        \<lparr>processed_chapters = {}, logged = [], world = ()\<rparr>) = [''TIT25LADE'']"
proof -
  have 1: "\<not> truthy (dict_get (node []) ''Id'' (JStr []))"
    by (simp add: node_def dict_get_def)
  have 2: "dict_get (node ''TIT25LADE'') ''Id'' (JStr []) = JStr ''TIT25LADE'' \<and> ''TIT25LADE'' \<noteq> []
     \<and> CHR ''_'' \<notin> set ''TIT25LADE''
     \<and> ''TIT25LADE'' \<notin> processed_chapters \<lparr>processed_chapters = {}, logged = [], world = ()\<rparr>"
    by (simp add: node_def dict_get_def)
  from 1 empty_id_skipped [where ch = "node []" and fetch = fetch_ok and pre = "[node ''TIT1_CH1'']"
       and post = "[node ''TIT1_CH2'']"
       and ?st0.0 = "\<lparr>processed_chapters = {}, logged = [], world = ()\<rparr>"]
  have a: "fetch_loop fetch_ok ([node ''TIT1_CH1''] @ node [] # [node ''TIT1_CH2''])
        \<lparr>processed_chapters = {}, logged = [], world = ()\<rparr>
     = fetch_loop fetch_ok ([node ''TIT1_CH1''] @ [node ''TIT1_CH2''])
        \<lparr>processed_chapters = {}, logged = [], world = ()\<rparr>" by blast
  from 2 empty_id_skipped [where ch = "node ''TIT25LADE''" and nid = "''TIT25LADE''"
       and st = "\<lparr>processed_chapters = {}, logged = [], world = ()\<rparr>" and fetch = fetch_ok]
  have b: "emitted_keys (loop_step fetch_ok (node ''TIT25LADE'')
        \<lparr>processed_chapters = {}, logged = [], world = ()\<rparr>) = [''TIT25LADE'']"
    by simp
  from 1 a b show ?thesis by blast
qed

text \<open>The id TIT25LADE has no underscore, and its node is fetched.\<close>

theorem no_underscore_id_counterexample:
  "CHR ''_'' \<notin> set ''TIT25LADE''
   \<and> emitted_keys (fetch_chapters fetch_ok [node ''TIT25LADE''] ()) = [''TIT25LADE'']"
  by (simp add: emitted_keys_def fetch_chapters_def loop_step_def try_chapter_def
      dict_get_def node_def fetch_ok_def base_chapter_of_def Let_def)

subsection \<open>Which keys are counted\<close>







section \<open>The content cleaner on every input\<close>

subsection \<open>Substitution that finds no match\<close>

lemma re_sub_no_match:
  "(\<And>t. suffix t s \<Longrightarrow> t \<noteq> [] \<Longrightarrow> m t = None) \<Longrightarrow> re_sub m r s = s"
proof (induction s)
  case Nil
  show ?case by simp
next
  case (Cons c cs)
  have "m (c # cs) = None" using Cons.prems [of "c # cs"] by simp
  moreover have "re_sub m r cs = cs"
    using Cons.prems by (intro Cons.IH) (simp add: suffix_ConsI)
  ultimately show ?case by simp
qed

lemma re_sub_no_trigger:
  assumes "\<And>c cs. c \<in> set s \<Longrightarrow> m (c # cs) = None"
  shows "re_sub m r s = s"
proof (rule re_sub_no_match)
  fix t assume "suffix t s" "t \<noteq> []"
  then obtain c cs where t: "t = c # cs" and "c \<in> set s"
    by (cases t) (auto simp: suffix_def)
  then show "m t = None" using assms by simp
qed

lemma match_div_trigger: "c \<noteq> lt_sign \<Longrightarrow> match_div (c # cs) = None"
  by (simp add: match_div_def)

lemma match_br_trigger: "c \<noteq> lt_sign \<Longrightarrow> match_br (c # cs) = None"
  by (simp add: match_br_def)

lemma match_tag_trigger: "c \<noteq> lt_sign \<Longrightarrow> match_tag (c # cs) = None"
  by (simp add: match_tag_def)

lemma match_quoted_trigger: "c \<noteq> bslash \<Longrightarrow> match_quoted (c # cs) = None"
  by (simp add: match_quoted_def split: list.splits)

lemma match_blank_lines_trigger: "c \<noteq> newline \<Longrightarrow> match_blank_lines (c # cs) = None"
  by (simp add: match_blank_lines_def Let_def)

lemma match_literal_trigger: "old \<noteq> [] \<Longrightarrow> c \<noteq> hd old \<Longrightarrow> match_literal old (c # cs) = None"
  by (cases old) (auto simp: match_literal_def)

lemma replace_no_trigger: "old \<noteq> [] \<Longrightarrow> hd old \<notin> set s \<Longrightarrow> replace old new s = s"
  unfolding replace_def by (rule re_sub_no_trigger) (metis match_literal_trigger)

lemma strip_markup_no_lt: "lt_sign \<notin> set s \<Longrightarrow> strip_markup s = s"
proof -
  assume a: "lt_sign \<notin> set s"
  have 1: "re_sub match_div [newline] s = s"
    by (rule re_sub_no_trigger) (metis a match_div_trigger)
  have 2: "replace ''</div>'' [] s = s"
    by (rule replace_no_trigger) (use a in auto)
  have 3: "re_sub match_br [newline] s = s"
    by (rule re_sub_no_trigger) (metis a match_br_trigger)
  have 4: "re_sub match_tag [] s = s"
    by (rule re_sub_no_trigger) (metis a match_tag_trigger)
  show ?thesis by (simp add: strip_markup_def 1 2 3 4)
qed

subsection \<open>The white space of the result\<close>

lemma match_ws_Cons:
  "match_ws (c # cs) = (if isspace c then Some (Suc (length (takeWhile isspace cs))) else None)"
  by (simp add: match_ws_def)

lemma collapse_Cons:
  "re_sub match_ws [blank] (c # cs) =
     (if isspace c then blank # re_sub match_ws [blank] (dropWhile isspace cs)
      else c # re_sub match_ws [blank] cs)"
  by (simp add: match_ws_Cons dropWhile_eq_drop)

declare re_sub.simps(2) [simp del]

lemma collapse_induct [case_names Nil Space Other]:
  assumes "P []"
    and "\<And>c cs. isspace c \<Longrightarrow> P (dropWhile isspace cs) \<Longrightarrow> P (c # cs)"
    and "\<And>c cs. \<not> isspace c \<Longrightarrow> P cs \<Longrightarrow> P (c # cs)"
  shows "P s"
proof (induction s rule: length_induct)
  case (1 s)
  show ?case
  proof (cases s)
    case Nil
    then show ?thesis using assms(1) by simp
  next
    case (Cons c cs)
    have "length (dropWhile isspace cs) < length s"
      using Cons length_dropWhile_le [of isspace cs] by simp
    with 1 Cons assms(2,3) show ?thesis by (cases "isspace c") auto
  qed
qed

lemma isspace_blank [simp]: "isspace blank"
  by (simp add: isspace_def)

lemma isspace_newline [simp]: "isspace newline"
  by (simp add: isspace_def)

lemma collapse_spaces_are_blank:
  "c \<in> set (re_sub match_ws [blank] s) \<Longrightarrow> isspace c \<Longrightarrow> c = blank"
  by (induction s rule: collapse_induct) (auto simp: collapse_Cons split: if_splits)

lemma collapse_hd:
  "re_sub match_ws [blank] s = c # t \<Longrightarrow> isspace c \<Longrightarrow> s \<noteq> [] \<and> isspace (hd s)"
  by (cases s) (auto simp: collapse_Cons split: if_splits)

lemma dropWhile_hd_not: "dropWhile P xs = y # ys \<Longrightarrow> \<not> P y"
  using hd_dropWhile [of P xs] by auto

lemma collapse_no_double:
  "\<not> sublist [blank, blank] (re_sub match_ws [blank] s)"
proof (induction s rule: collapse_induct)
  case Nil
  show ?case by simp
next
  case (Space c cs)
  have "\<not> prefix [blank, blank] (blank # re_sub match_ws [blank] (dropWhile isspace cs))"
  proof
    assume "prefix [blank, blank] (blank # re_sub match_ws [blank] (dropWhile isspace cs))"
    then obtain t where "re_sub match_ws [blank] (dropWhile isspace cs) = blank # t"
      by (auto simp: prefix_def)
    from collapse_hd [OF this] have "dropWhile isspace cs \<noteq> []"
      and "isspace (hd (dropWhile isspace cs))" by auto
    then show False using hd_dropWhile [of isspace cs] by simp
  qed
  with Space show ?case by (simp add: collapse_Cons sublist_Cons_right)
next
  case (Other c cs)
  then have "c \<noteq> blank" by auto
  with Other show ?case by (auto simp: collapse_Cons sublist_Cons_right)
qed

lemma strip_sublist: "sublist (strip s) s"
proof -
  have "sublist (dropWhile isspace (rev (dropWhile isspace s))) (rev (dropWhile isspace s))"
    by simp
  then have "sublist (strip s) (dropWhile isspace s)"
    by (simp add: strip_def sublist_rev_left)
  moreover have "sublist (dropWhile isspace s) s" by simp
  ultimately show ?thesis by (rule sublist_order.order_trans)
qed

lemma strip_last: "strip s \<noteq> [] \<Longrightarrow> \<not> isspace (last (strip s))"
  using hd_dropWhile [of isspace "rev (dropWhile isspace s)"]
  by (simp add: strip_def last_rev)

lemma rev_dropWhile_rev_hd:
  "rev (dropWhile P (rev xs)) \<noteq> [] \<Longrightarrow> hd (rev (dropWhile P (rev xs))) = hd xs"
proof -
  assume a: "rev (dropWhile P (rev xs)) \<noteq> []"
  have "rev xs = takeWhile P (rev xs) @ dropWhile P (rev xs)" by simp
  then have "xs = rev (dropWhile P (rev xs)) @ rev (takeWhile P (rev xs))"
    by (metis rev_append rev_rev_ident)
  with a show ?thesis by (metis hd_append2)
qed

lemma strip_hd: "strip s \<noteq> [] \<Longrightarrow> \<not> isspace (hd (strip s))"
proof -
  assume a: "strip s \<noteq> []"
  have "dropWhile isspace s = [] \<Longrightarrow> strip s = []"
    by (simp only: strip_def rev.simps dropWhile.simps)
  with a have d: "dropWhile isspace s \<noteq> []" by blast
  from a have "hd (strip s) = hd (dropWhile isspace s)"
    unfolding strip_def by (rule rev_dropWhile_rev_hd)
  with d show ?thesis using hd_dropWhile [of isspace s] by simp
qed

lemma strip_fixed:
  "s = [] \<or> (\<not> isspace (hd s) \<and> \<not> isspace (last s)) \<Longrightarrow> strip s = s"
proof (cases s)
  case Nil
  then show ?thesis by (simp add: strip_def)
next
  case (Cons c cs)
  assume "s = [] \<or> (\<not> isspace (hd s) \<and> \<not> isspace (last s))"
  with Cons have h: "\<not> isspace (hd s)" and l: "\<not> isspace (last s)" by auto
  from h Cons have 1: "dropWhile isspace s = s" by simp
  have "hd (rev s) = last s" using Cons by (simp only: hd_rev)
  with l have "dropWhile isspace (rev s) = rev s"
    by (simp only: dropWhile_eq_self_iff) simp
  with 1 show ?thesis by (simp add: strip_def)
qed

lemma strip_strip: "strip (strip s) = strip s"
  by (rule strip_fixed) (use strip_hd strip_last in blast)

lemma strip_all_space: "\<forall>c\<in>set s. isspace c \<Longrightarrow> strip s = []"
proof -
  assume "\<forall>c\<in>set s. isspace c"
  then have "dropWhile isspace s = []" by simp
  then show ?thesis by (simp only: strip_def rev.simps dropWhile.simps)
qed

subsection \<open>The last steps on a text without line feeds\<close>

lemma clean_lines_no_newline: "newline \<notin> set s \<Longrightarrow> clean_lines s = strip s"
  by (simp add: clean_lines_def split_no_sep Let_def)

lemma collapse_no_newline: "newline \<notin> set (re_sub match_ws [blank] s)"
  using collapse_spaces_are_blank [of newline s] by auto

lemma normalize_space_eq: "normalize_space s = re_sub match_ws [blank] s"
proof -
  have "re_sub match_blank_lines [newline, newline] (re_sub match_ws [blank] s)
          = re_sub match_ws [blank] s"
    by (rule re_sub_no_trigger)
       (metis collapse_no_newline match_blank_lines_trigger)
  then show ?thesis by (simp add: normalize_space_def)
qed

lemma clean_eq:
  "get_clean_content (Some s) = strip (re_sub match_ws [blank] (unescape (strip_markup s)))"
proof (cases "s = []")
  case True
  then show ?thesis
    by (simp add: get_clean_content_def strip_markup_def unescape_def replace_def strip_def)
next
  case False
  then show ?thesis
    by (simp add: get_clean_content_def normalize_space_eq clean_lines_no_newline
        collapse_no_newline strip_strip)
qed

lemma re_sub_set: "set (re_sub m r s) \<subseteq> set s \<union> set r"
proof (induction m r s rule: re_sub.induct)
  case (1 m r)
  show ?case by simp
next
  case (2 m r c cs)
  show ?case
  proof (cases "m (c # cs)")
    case None
    with 2 show ?thesis by (auto simp: re_sub.simps(2))
  next
    case (Some k)
    show ?thesis
    proof (cases k)
      case 0
      with 2 Some show ?thesis by (auto simp: re_sub.simps(2))
    next
      case (Suc n)
      with 2(3) [OF Some Suc] Some show ?thesis
        using set_drop_subset [of n cs] by (auto simp: re_sub.simps(2))
    qed
  qed
qed

lemma replace_set: "set (replace old new s) \<subseteq> set s \<union> set new"
  unfolding replace_def by (rule re_sub_set)

lemma unescape_no_trigger:
  assumes "CHR ''&'' \<notin> set s" and "bslash \<notin> set s"
  shows "unescape s = s"
proof -
  have 1: "replace ''&nbsp;'' [blank] s = s"
    by (rule replace_no_trigger) (use assms in auto)
  have 2: "re_sub match_quoted quoted_repl s = s"
    by (rule re_sub_no_trigger) (metis assms(2) match_quoted_trigger)
  have 3: "replace [bslash, CHR ''n''] [newline] s = s"
    by (rule replace_no_trigger) (use assms in auto)
  have 4: "replace [bslash, dquote] [dquote] s = s"
    by (rule replace_no_trigger) (use assms in auto)
  show ?thesis by (simp add: unescape_def 1 2 3 4)
qed

text \<open>
  C5. The cleaner is a total function: it returns the empty string for None, for the
  empty string, and for every text that consists of white space only.
\<close>

theorem clean_blank_input:
  "get_clean_content None = []
   \<and> get_clean_content (Some []) = []
   \<and> ((\<forall>c\<in>set s. isspace c) \<longrightarrow> get_clean_content (Some s) = [])"
proof (intro conjI impI)
  show "get_clean_content None = []" by (simp add: get_clean_content_def)
  show "get_clean_content (Some []) = []" by (simp add: get_clean_content_def)
  assume ws: "\<forall>c\<in>set s. isspace c"
  have "\<not> isspace lt_sign" "\<not> isspace (CHR ''&'')" "\<not> isspace bslash"
    by (simp_all add: isspace_def)
  with ws have "lt_sign \<notin> set s" "CHR ''&'' \<notin> set s" "bslash \<notin> set s" by blast+
  then have "unescape (strip_markup s) = s"
    by (simp add: strip_markup_no_lt unescape_no_trigger)
  moreover have "\<forall>c\<in>set (re_sub match_ws [blank] s). isspace c"
    using re_sub_set [of match_ws "[blank]" s] ws by auto
  ultimately show "get_clean_content (Some s) = []"
    by (simp add: clean_eq strip_all_space)
qed

theorem clean_blank_input_witness:
  "isspace blank \<and> isspace (CHR 0x09) \<and> isspace newline \<and> isspace (CHR 0x0D)
   \<and> get_clean_content (Some [blank, CHR 0x09, newline, CHR 0x0D, blank]) = []"
proof -
  have 1: "isspace blank \<and> isspace (CHR 0x09) \<and> isspace newline \<and> isspace (CHR 0x0D)"
    by (simp add: isspace_def)
  then have "\<forall>c\<in>set [blank, CHR 0x09, newline, CHR 0x0D, blank]. isspace c"
    by simp
  with clean_blank_input [of "[blank, CHR 0x09, newline, CHR 0x0D, blank]"] 1
  show ?thesis by blast
qed

text \<open>
  C10. For every input, the result of the cleaner contains no line feed (its only white
  space characters are spaces), no two consecutive spaces, and neither starts nor ends
  with white space.
\<close>

theorem clean_output_shape:
  "newline \<notin> set (get_clean_content content)
   \<and> (\<forall>c\<in>set (get_clean_content content). isspace c \<longrightarrow> c = blank)
   \<and> \<not> sublist [blank, blank] (get_clean_content content)
   \<and> (get_clean_content content \<noteq> [] \<longrightarrow>
        \<not> isspace (hd (get_clean_content content))
        \<and> \<not> isspace (last (get_clean_content content)))"
proof (cases content)
  case None
  then show ?thesis by (simp add: get_clean_content_def)
next
  case (Some s)
  let ?t = "re_sub match_ws [blank] (unescape (strip_markup s))"
  have out: "get_clean_content content = strip ?t" using Some by (simp add: clean_eq)
  have sub: "sublist (strip ?t) ?t" by (rule strip_sublist)
  then have set: "set (strip ?t) \<subseteq> set ?t" by (rule set_mono_sublist)
  have 1: "\<forall>c\<in>set (strip ?t). isspace c \<longrightarrow> c = blank"
    using set collapse_spaces_are_blank by blast
  then have 0: "newline \<notin> set (strip ?t)" by force
  have 2: "\<not> sublist [blank, blank] (strip ?t)"
    using sub collapse_no_double [of "unescape (strip_markup s)"]
    by (blast intro: sublist_order.order_trans)
  have 3: "strip ?t \<noteq> [] \<longrightarrow> \<not> isspace (hd (strip ?t)) \<and> \<not> isspace (last (strip ?t))"
    using strip_hd strip_last by blast
  from 0 1 2 3 show ?thesis unfolding out by blast
qed

theorem clean_output_shape_witness:
  "get_clean_content (Some ''  <div> a   b</div><br/>  c  '') = ''a b c''
   \<and> newline \<notin> set ''a b c''
   \<and> \<not> sublist [blank, blank] ''a b c''
   \<and> ''a b c'' \<noteq> [] \<and> \<not> isspace (hd ''a b c'') \<and> \<not> isspace (last ''a b c'')"
proof -
  have e: "get_clean_content (Some ''  <div> a   b</div><br/>  c  '') = ''a b c''"
    by code_simp
  from clean_output_shape [of "Some ''  <div> a   b</div><br/>  c  ''"]
  show ?thesis unfolding e by simp
qed

subsection \<open>What a match looks like\<close>

lemma re_sub_match:
  "m (c # cs) = Some (Suc n) \<Longrightarrow> re_sub m r (c # cs) = r @ re_sub m r (drop n cs)"
  by (simp add: re_sub.simps(2))

lemma re_sub_skip:
  "m (c # cs) = None \<or> m (c # cs) = Some 0 \<Longrightarrow> re_sub m r (c # cs) = c # re_sub m r cs"
  by (auto simp: re_sub.simps(2))

lemma re_sub_cases [case_names Nil Skip Match]:
  assumes "P []"
    and "\<And>c cs. m (c # cs) = None \<or> m (c # cs) = Some 0 \<Longrightarrow> P cs \<Longrightarrow> P (c # cs)"
    and "\<And>c cs n. m (c # cs) = Some (Suc n) \<Longrightarrow> P (drop n cs) \<Longrightarrow> P (c # cs)"
  shows "P s"
proof (induction s rule: length_induct)
  case (1 s)
  show ?case
  proof (cases s)
    case Nil
    then show ?thesis using assms(1) by simp
  next
    case (Cons c cs)
    show ?thesis
    proof (cases "m (c # cs)")
      case None
      with 1 Cons assms(2) show ?thesis by simp
    next
      case (Some k)
      show ?thesis
      proof (cases k)
        case 0
        with 1 Cons Some assms(2) show ?thesis by simp
      next
        case (Suc n)
        have "length (drop n cs) < length s" using Cons by simp
        with 1 have "P (drop n cs)" by blast
        with Suc Some Cons assms(3) show ?thesis by simp
      qed
    qed
  qed
qed

subsection \<open>Tags\<close>

lemma match_tag_Some:
  "match_tag (c # cs) = Some k \<Longrightarrow> c = lt_sign \<and> gt_sign \<in> set cs \<and> k \<noteq> 0"
  by (auto simp: match_tag_def split: if_splits)

lemma match_tag_None:
  "match_tag (c # cs) = None \<Longrightarrow> c \<noteq> lt_sign \<or> gt_sign \<notin> set cs"
  by (auto simp: match_tag_def split: if_splits)

lemma no_tag_Cons:
  "no_tag (c # cs) = (if c = lt_sign then gt_sign \<notin> set cs else no_tag cs)"
  by (simp add: no_tag_def)

lemma no_tag_strip_tags: "no_tag (re_sub match_tag [] s)"
proof (induction s rule: re_sub_cases [where m = match_tag])
  case Nil
  show ?case by (simp add: no_tag_def)
next
  case (Skip c cs)
  then have n: "match_tag (c # cs) = None" using match_tag_Some [of c cs 0] by auto
  then have "c \<noteq> lt_sign \<or> gt_sign \<notin> set cs" by (rule match_tag_None)
  moreover have "set (re_sub match_tag [] cs) \<subseteq> set cs"
    using re_sub_set [of match_tag "[]" cs] by simp
  ultimately show ?case using Skip by (auto simp: re_sub_skip no_tag_Cons)
next
  case (Match c cs n)
  then show ?case by (simp add: re_sub_match)
qed

lemma no_tag_suffix:
  assumes "no_tag s" and "suffix (lt_sign # u) s"
  shows "gt_sign \<notin> set u"
proof -
  from assms(2) obtain p where s: "s = p @ lt_sign # u" by (auto simp: suffix_def)
  have "set u \<subseteq> set (dropWhile (\<lambda>c. c \<noteq> lt_sign) (p @ lt_sign # u))"
    by (induction p) auto
  with assms(1) s show ?thesis by (auto simp: no_tag_def)
qed

lemma filter_dropWhile_angle:
  "filter is_angle (dropWhile (\<lambda>c. c \<noteq> lt_sign) s)
     = dropWhile (\<lambda>c. c \<noteq> lt_sign) (filter is_angle s)"
  by (induction s) (auto simp: is_angle_def)

lemma no_tag_filter: "no_tag s = no_tag (filter is_angle s)"
proof -
  have "gt_sign \<in> set (dropWhile (\<lambda>c. c \<noteq> lt_sign) s)
          \<longleftrightarrow> gt_sign \<in> set (filter is_angle (dropWhile (\<lambda>c. c \<noteq> lt_sign) s))"
    by (simp add: is_angle_def)
  then show ?thesis by (simp add: no_tag_def filter_dropWhile_angle)
qed

lemma match_div_Some:
  "match_div t = Some k \<Longrightarrow> \<exists>u. t = lt_sign # u \<and> gt_sign \<in> set u"
proof -
  assume a: "match_div t = Some k"
  then have p: "prefix ''<div'' t" and g: "gt_sign \<in> set (drop 4 t)"
    by (auto simp: match_div_def split: if_splits)
  from p obtain u where t: "t = lt_sign # u" by (cases t) auto
  have "set (drop 4 t) \<subseteq> set u" using t set_drop_subset [of 3 u] by simp
  with g t show ?thesis by blast
qed

lemma match_br_Some:
  "match_br t = Some k \<Longrightarrow> \<exists>u. t = lt_sign # u \<and> gt_sign \<in> set u"
proof -
  assume a: "match_br t = Some k"
  then have p: "prefix ''<br'' t" by (auto simp: match_br_def split: if_splits)
  from p obtain u where t: "t = lt_sign # u" by (cases t) auto
  have "gt_sign \<in> set (dropWhile isspace (drop 3 t))"
    using a p by (auto simp: match_br_def Let_def split: list.splits if_splits)
  moreover have "set (dropWhile isspace (drop 3 t)) \<subseteq> set (drop 3 t)"
    by (rule set_mono_sublist) simp
  moreover have "set (drop 3 t) \<subseteq> set u" using t set_drop_subset [of 2 u] by simp
  ultimately show ?thesis using t by blast
qed

lemma match_close_div_Some:
  "match_literal ''</div>'' t = Some k \<Longrightarrow> \<exists>u. t = lt_sign # u \<and> gt_sign \<in> set u"
  by (auto simp: match_literal_def prefix_def split: if_splits)

lemma match_tag_Some':
  "match_tag t = Some k \<Longrightarrow> \<exists>u. t = lt_sign # u \<and> gt_sign \<in> set u"
  by (cases t) (auto simp: match_tag_def split: if_splits)

lemma strip_markup_no_tag:
  assumes "no_tag s"
  shows "strip_markup s = s"
proof -
  have none: "m t = None"
    if "\<And>t k. m t = Some k \<Longrightarrow> \<exists>u. t = lt_sign # u \<and> gt_sign \<in> set u" and "suffix t s"
    for m :: "string \<Rightarrow> nat option" and t
  proof (cases "m t")
    case (Some k)
    with that(1) obtain u where "t = lt_sign # u" "gt_sign \<in> set u" by blast
    with no_tag_suffix [OF assms] that(2) show ?thesis by blast
  qed simp
  have 1: "re_sub match_div [newline] s = s"
    by (rule re_sub_no_match) (rule none [of match_div], rule match_div_Some)
  have 2: "replace ''</div>'' [] s = s"
    unfolding replace_def
    by (rule re_sub_no_match) (rule none [of "match_literal ''</div>''"], rule match_close_div_Some)
  have 3: "re_sub match_br [newline] s = s"
    by (rule re_sub_no_match) (rule none [of match_br], rule match_br_Some)
  have 4: "re_sub match_tag [] s = s"
    by (rule re_sub_no_match) (rule none [of match_tag], rule match_tag_Some')
  show ?thesis by (simp add: strip_markup_def 1 2 3 4)
qed

subsection \<open>Steps that leave the angle brackets alone\<close>

lemma re_sub_filter:
  assumes matched: "\<And>t k. m t = Some k \<Longrightarrow> filter p (take k t) = []"
    and repl: "filter p r = []"
  shows "filter p (re_sub m r s) = filter p s"
proof (induction s rule: re_sub_cases [where m = m])
  case Nil
  show ?case by simp
next
  case (Skip c cs)
  then show ?case by (simp add: re_sub_skip)
next
  case (Match c cs n)
  have "c # cs = take (Suc n) (c # cs) @ drop n cs" by simp
  then have "filter p (c # cs) = filter p (take (Suc n) (c # cs)) @ filter p (drop n cs)"
    by (metis filter_append)
  with matched [OF Match(1)] have "filter p (c # cs) = filter p (drop n cs)" by simp
  with Match repl show ?case by (simp add: re_sub_match)
qed

lemma match_literal_take: "match_literal old t = Some k \<Longrightarrow> take k t = old"
  by (auto simp: match_literal_def prefix_def split: if_splits)

lemma match_quoted_take:
  "match_quoted t = Some k \<Longrightarrow>
     \<exists>c. is_upper c \<and> take k t = [bslash, dquote, c, bslash, dquote]"
  by (auto simp: match_quoted_def split: list.splits if_splits)

lemma match_ws_take: "match_ws t = Some k \<Longrightarrow> take k t = takeWhile isspace t"
proof -
  assume "match_ws t = Some k"
  then have "k = length (takeWhile isspace t)"
    by (auto simp: match_ws_def Let_def split: if_splits)
  then show ?thesis using takeWhile_eq_take [of isspace t] by simp
qed

lemma not_angle_space: "isspace c \<Longrightarrow> \<not> is_angle c"
  by (auto simp: isspace_def is_angle_def)

lemma not_angle_upper: "is_upper c \<Longrightarrow> \<not> is_angle c"
  by (auto simp: is_upper_def is_angle_def)

lemma replace_angles:
  "filter is_angle old = [] \<Longrightarrow> filter is_angle new = []
    \<Longrightarrow> filter is_angle (replace old new s) = filter is_angle s"
  unfolding replace_def
  by (rule re_sub_filter) (auto dest: match_literal_take)

lemma unquote_angles:
  "filter is_angle (re_sub match_quoted quoted_repl s) = filter is_angle s"
proof (rule re_sub_filter)
  fix t k assume "match_quoted t = Some k"
  then obtain c where "is_upper c" "take k t = [bslash, dquote, c, bslash, dquote]"
    using match_quoted_take by blast
  then show "filter is_angle (take k t) = []"
    by (simp add: not_angle_upper) (simp add: is_angle_def)
next
  show "filter is_angle quoted_repl = []" by (simp add: quoted_repl_def is_angle_def)
qed

lemma collapse_angles:
  "filter is_angle (re_sub match_ws [blank] s) = filter is_angle s"
proof (rule re_sub_filter)
  fix t k assume "match_ws t = Some k"
  then have "take k t = takeWhile isspace t" by (rule match_ws_take)
  moreover have "\<forall>c\<in>set (takeWhile isspace t). \<not> is_angle c"
    using not_angle_space by (auto dest: set_takeWhileD)
  ultimately show "filter is_angle (take k t) = []" by (simp add: filter_empty_conv)
next
  show "filter is_angle [blank] = []" by (simp add: is_angle_def)
qed

lemma dropWhile_space_angles:
  "filter is_angle (dropWhile isspace s) = filter is_angle s"
  by (induction s) (auto simp: not_angle_space)

lemma strip_angles: "filter is_angle (strip s) = filter is_angle s"
proof -
  have "filter is_angle (strip s) = rev (filter is_angle (dropWhile isspace (rev (dropWhile isspace s))))"
    by (simp add: strip_def rev_filter)
  also have "\<dots> = rev (filter is_angle (rev (dropWhile isspace s)))"
    by (simp only: dropWhile_space_angles)
  also have "\<dots> = filter is_angle (dropWhile isspace s)"
    by (simp add: rev_filter)
  finally show ?thesis by (simp only: dropWhile_space_angles)
qed

lemma unescape_angles: "filter is_angle (unescape s) = filter is_angle s"
  by (simp add: unescape_def replace_angles unquote_angles is_angle_def)

lemma clean_no_tag: "no_tag (get_clean_content (Some s))"
proof -
  have "filter is_angle (get_clean_content (Some s)) = filter is_angle (strip_markup s)"
    by (simp add: clean_eq strip_angles collapse_angles unescape_angles)
  moreover have "no_tag (strip_markup s)"
    by (simp add: strip_markup_def no_tag_strip_tags)
  ultimately show ?thesis by (metis no_tag_filter)
qed

subsection \<open>Occurrences of a text that shares no character with the replacement\<close>

lemma re_sub_take_unchanged:
  assumes "r \<noteq> []"
  shows "set (take k (re_sub m r s)) \<inter> set r = {} \<Longrightarrow> take k (re_sub m r s) = take k s"
proof (induction s arbitrary: k rule: re_sub_cases [where m = m])
  case Nil
  show ?case by simp
next
  case (Skip c cs)
  show ?case
  proof (cases k)
    case 0
    then show ?thesis by simp
  next
    case (Suc j)
    with Skip.prems Skip.hyps have "set (take j (re_sub m r cs)) \<inter> set r = {}"
      by (auto simp: re_sub_skip)
    then have "take j (re_sub m r cs) = take j cs" by (rule Skip.IH)
    with Suc Skip.hyps show ?thesis by (simp add: re_sub_skip)
  qed
next
  case (Match c cs n)
  show ?case
  proof (cases k)
    case 0
    then show ?thesis by simp
  next
    case (Suc j)
    from assms obtain a r' where r: "r = a # r'" by (cases r) auto
    with Suc Match.hyps have "a \<in> set (take k (re_sub m r (c # cs)))"
      by (simp add: re_sub_match)
    with Match.prems r show ?thesis by auto
  qed
qed

lemma prefix_re_sub:
  assumes "r \<noteq> []" and "set old \<inter> set r = {}" and "prefix old (re_sub m r s)"
  shows "prefix old s"
proof -
  from assms(3) have t: "take (length old) (re_sub m r s) = old"
    by (auto simp: prefix_def)
  with assms(2) have "set (take (length old) (re_sub m r s)) \<inter> set r = {}" by simp
  from re_sub_take_unchanged [OF assms(1) this] t have "take (length old) s = old" by simp
  then show ?thesis by (metis take_is_prefix)
qed

lemma sublist_skip_char:
  "old \<noteq> [] \<Longrightarrow> a \<notin> set old \<Longrightarrow> sublist old (a # t) \<Longrightarrow> sublist old t"
  by (cases old) (auto simp: sublist_Cons_right)

lemma sublist_skip_repl:
  "old \<noteq> [] \<Longrightarrow> set old \<inter> set r = {} \<Longrightarrow> sublist old (r @ t) \<Longrightarrow> sublist old t"
  by (induction r) (auto dest: sublist_skip_char)

lemma sublist_re_sub:
  assumes "old \<noteq> []" and "r \<noteq> []" and "set old \<inter> set r = {}"
  shows "sublist old (re_sub m r s) \<Longrightarrow> sublist old s"
proof (induction s rule: re_sub_cases [where m = m])
  case Nil
  then show ?case by simp
next
  case (Skip c cs)
  have eq: "re_sub m r (c # cs) = c # re_sub m r cs"
    using Skip.hyps by (rule re_sub_skip)
  from Skip.prems have "sublist old (c # re_sub m r cs)" by (simp only: eq)
  then have "prefix old (c # re_sub m r cs) \<or> sublist old (re_sub m r cs)"
    by (simp only: sublist_Cons_right)
  then show ?case
  proof
    assume "prefix old (c # re_sub m r cs)"
    then have "prefix old (re_sub m r (c # cs))" by (simp only: eq)
    with assms(2,3) have "prefix old (c # cs)" by (rule prefix_re_sub)
    then show ?thesis by (rule prefix_imp_sublist)
  next
    assume "sublist old (re_sub m r cs)"
    then have "sublist old cs" by (rule Skip.IH)
    then show ?thesis by (simp only: sublist_Cons_right simp_thms)
  qed
next
  case (Match c cs n)
  have eq: "re_sub m r (c # cs) = r @ re_sub m r (drop n cs)"
    using Match.hyps by (rule re_sub_match)
  from Match.prems have "sublist old (r @ re_sub m r (drop n cs))" by (simp only: eq)
  with assms(1,3) have "sublist old (re_sub m r (drop n cs))" by (rule sublist_skip_repl)
  then have "sublist old (drop n cs)" by (rule Match.IH)
  moreover have "sublist (drop n cs) cs" by (rule sublist_drop)
  ultimately have "sublist old cs" by (rule sublist_order.order_trans)
  then show ?case by (simp only: sublist_Cons_right simp_thms)
qed

lemma replace_removes:
  assumes "old \<noteq> []" and "new \<noteq> []" and "set old \<inter> set new = {}"
  shows "\<not> sublist old (replace old new s)"
  unfolding replace_def
proof (induction s rule: re_sub_cases [where m = "match_literal old"])
  case Nil
  show ?case using assms(1) by simp
next
  case (Skip c cs)
  with assms(1) have none: "match_literal old (c # cs) = None"
    by (auto simp: match_literal_def split: if_splits)
  have eq: "re_sub (match_literal old) new (c # cs) = c # re_sub (match_literal old) new cs"
    using Skip.hyps by (rule re_sub_skip)
  have "\<not> prefix old (re_sub (match_literal old) new (c # cs))"
  proof
    assume "prefix old (re_sub (match_literal old) new (c # cs))"
    with assms(2,3) have "prefix old (c # cs)" by (rule prefix_re_sub)
    with none show False by (simp add: match_literal_def)
  qed
  with Skip.IH show ?case by (simp only: eq sublist_Cons_right simp_thms)
next
  case (Match c cs n)
  have eq: "re_sub (match_literal old) new (c # cs)
              = new @ re_sub (match_literal old) new (drop n cs)"
    using Match.hyps by (rule re_sub_match)
  show ?case
  proof
    assume "sublist old (re_sub (match_literal old) new (c # cs))"
    then have "sublist old (new @ re_sub (match_literal old) new (drop n cs))"
      by (simp only: eq)
    with assms(1,3) have "sublist old (re_sub (match_literal old) new (drop n cs))"
      by (rule sublist_skip_repl)
    with Match.IH show False by blast
  qed
qed

subsection \<open>The entity of the no-break space does not survive\<close>

lemma nbsp_disjoint:
  "set ''&nbsp;'' \<inter> set [blank] = {}" "set ''&nbsp;'' \<inter> set [dquote] = {}"
  "set ''&nbsp;'' \<inter> set [newline] = {}" "set ''&nbsp;'' \<inter> set quoted_repl = {}"
  by (simp_all add: quoted_repl_def)

lemma sublist_replace:
  "old \<noteq> [] \<Longrightarrow> new \<noteq> [] \<Longrightarrow> set old \<inter> set new = {}
    \<Longrightarrow> sublist old (replace p new s) \<Longrightarrow> sublist old s"
  unfolding replace_def by (rule sublist_re_sub)

lemma unescape_no_nbsp: "\<not> sublist ''&nbsp;'' (unescape s)"
proof
  assume "sublist ''&nbsp;'' (unescape s)"
  then have "sublist ''&nbsp;''
      (replace [bslash, CHR ''n''] [newline]
         (re_sub match_quoted quoted_repl
           (re_sub match_quoted quoted_repl (replace ''&nbsp;'' [blank] s))))"
    unfolding unescape_def by (rule sublist_replace [rotated 3]) (simp_all add: quoted_repl_def)
  then have "sublist ''&nbsp;''
         (re_sub match_quoted quoted_repl
           (re_sub match_quoted quoted_repl (replace ''&nbsp;'' [blank] s)))"
    by (rule sublist_replace [rotated 3]) (simp_all add: quoted_repl_def)
  then have "sublist ''&nbsp;''
           (re_sub match_quoted quoted_repl (replace ''&nbsp;'' [blank] s))"
    by (rule sublist_re_sub [rotated 3]) (simp_all add: quoted_repl_def)
  then have "sublist ''&nbsp;'' (replace ''&nbsp;'' [blank] s)"
    by (rule sublist_re_sub [rotated 3]) (simp_all add: quoted_repl_def)
  moreover have "\<not> sublist ''&nbsp;'' (replace ''&nbsp;'' [blank] s)"
    by (rule replace_removes) (simp_all add: quoted_repl_def)
  ultimately show False by blast
qed

lemma clean_no_nbsp: "\<not> sublist ''&nbsp;'' (get_clean_content (Some s))"
proof
  let ?u = "unescape (strip_markup s)"
  assume "sublist ''&nbsp;'' (get_clean_content (Some s))"
  then have "sublist ''&nbsp;'' (strip (re_sub match_ws [blank] ?u))"
    by (simp only: clean_eq)
  then have "sublist ''&nbsp;'' (re_sub match_ws [blank] ?u)"
    using strip_sublist by (rule sublist_order.order_trans)
  then have "sublist ''&nbsp;'' ?u"
    by (rule sublist_re_sub [rotated 3]) (simp_all add: quoted_repl_def)
  with unescape_no_nbsp show False by blast
qed

subsection \<open>Texts that the cleaner leaves as they are\<close>

lemma replace_no_occurrence: "\<not> sublist old s \<Longrightarrow> replace old new s = s"
  unfolding replace_def
proof (rule re_sub_no_match)
  fix t assume a: "\<not> sublist old s" and t: "suffix t s"
  have "\<not> prefix old t" using a t by (auto simp: sublist_altdef')
  then show "match_literal old t = None" by (simp add: match_literal_def)
qed

lemma match_quoted_prefix: "match_quoted t = Some k \<Longrightarrow> prefix [bslash, dquote] t"
  by (auto simp: match_quoted_def split: list.splits if_splits)

lemma unquote_no_occurrence:
  "\<not> sublist [bslash, dquote] s \<Longrightarrow> re_sub match_quoted quoted_repl s = s"
proof (rule re_sub_no_match)
  fix t assume a: "\<not> sublist [bslash, dquote] s" and t: "suffix t s"
  have "\<not> prefix [bslash, dquote] t" using a t by (auto simp: sublist_altdef')
  then show "match_quoted t = None"
    using match_quoted_prefix [of t] by (cases "match_quoted t") auto
qed

lemma unescape_fixed:
  assumes "\<not> sublist ''&nbsp;'' s" and "\<not> sublist [bslash, dquote] s"
    and "\<not> sublist [bslash, CHR ''n''] s"
  shows "unescape s = s"
  by (simp add: unescape_def replace_no_occurrence unquote_no_occurrence assms)

lemma collapse_fixed:
  "\<forall>c\<in>set s. isspace c \<longrightarrow> c = blank \<Longrightarrow> \<not> sublist [blank, blank] s
    \<Longrightarrow> re_sub match_ws [blank] s = s"
proof (induction s)
  case Nil
  show ?case by simp
next
  case (Cons c cs)
  from Cons.prems(2) have nd: "\<not> sublist [blank, blank] cs" and np: "\<not> prefix [blank, blank] (c # cs)"
    by (simp_all add: sublist_Cons_right)
  with Cons have IH: "re_sub match_ws [blank] cs = cs" by simp
  show ?case
  proof (cases "isspace c")
    case True
    with Cons.prems(1) have c: "c = blank" by simp
    have "dropWhile isspace cs = cs"
    proof (cases cs)
      case (Cons d ds)
      have "\<not> isspace d"
      proof
        assume "isspace d"
        with Cons.prems(1) Cons have "d = blank" by simp
        with np c Cons show False by simp
      qed
      with Cons show ?thesis by simp
    qed simp
    with True c IH show ?thesis by (simp add: collapse_Cons)
  next
    case False
    with IH show ?thesis by (simp add: collapse_Cons)
  qed
qed

lemma clean_fixed:
  assumes "no_tag y" and "\<not> sublist ''&nbsp;'' y"
    and "\<not> sublist [bslash, dquote] y" and "\<not> sublist [bslash, CHR ''n''] y"
    and "\<forall>c\<in>set y. isspace c \<longrightarrow> c = blank" and "\<not> sublist [blank, blank] y"
    and "y = [] \<or> (\<not> isspace (hd y) \<and> \<not> isspace (last y))"
  shows "get_clean_content (Some y) = y"
proof -
  have "strip_markup y = y" using assms(1) by (rule strip_markup_no_tag)
  moreover have "unescape y = y" using assms(2,3,4) by (rule unescape_fixed)
  moreover have "re_sub match_ws [blank] y = y" using assms(5,6) by (rule collapse_fixed)
  moreover have "strip y = y" using assms(7) by (rule strip_fixed)
  ultimately show ?thesis by (simp add: clean_eq)
qed

lemma clean_shape:
  "(\<forall>c\<in>set (get_clean_content (Some s)). isspace c \<longrightarrow> c = blank)
   \<and> \<not> sublist [blank, blank] (get_clean_content (Some s))
   \<and> (get_clean_content (Some s) = []
       \<or> (\<not> isspace (hd (get_clean_content (Some s)))
           \<and> \<not> isspace (last (get_clean_content (Some s)))))"
proof -
  let ?t = "re_sub match_ws [blank] (unescape (strip_markup s))"
  have sub: "sublist (strip ?t) ?t" by (rule strip_sublist)
  then have "set (strip ?t) \<subseteq> set ?t" by (rule set_mono_sublist)
  then have 1: "\<forall>c\<in>set (strip ?t). isspace c \<longrightarrow> c = blank"
    using collapse_spaces_are_blank by blast
  have 2: "\<not> sublist [blank, blank] (strip ?t)"
    using sub collapse_no_double [of "unescape (strip_markup s)"]
    by (blast intro: sublist_order.order_trans)
  have 3: "strip ?t = [] \<or> (\<not> isspace (hd (strip ?t)) \<and> \<not> isspace (last (strip ?t)))"
    using strip_hd strip_last by blast
  from 1 2 3 show ?thesis by (simp only: clean_eq) blast
qed

lemma clean_twice:
  assumes "\<not> sublist [bslash, dquote] (get_clean_content (Some s))"
    and "\<not> sublist [bslash, CHR ''n''] (get_clean_content (Some s))"
  shows "get_clean_content (Some (get_clean_content (Some s))) = get_clean_content (Some s)"
  using clean_no_tag clean_no_nbsp assms clean_shape [of s]
  by (intro clean_fixed) blast+

lemma clean_set: "set (get_clean_content (Some s)) \<subseteq> set s \<union> {newline, blank, dquote, CHR 0x01}"
proof -
  let ?A = "{newline, blank, dquote, CHR 0x01}"
  let ?s1 = "re_sub match_div [newline] s"
  let ?s2 = "replace ''</div>'' [] ?s1"
  let ?s3 = "re_sub match_br [newline] ?s2"
  let ?s4 = "re_sub match_tag [] ?s3"
  let ?s5 = "replace ''&nbsp;'' [blank] ?s4"
  let ?s6 = "re_sub match_quoted quoted_repl ?s5"
  let ?s7 = "re_sub match_quoted quoted_repl ?s6"
  let ?s8 = "replace [bslash, CHR ''n''] [newline] ?s7"
  let ?s9 = "replace [bslash, dquote] [dquote] ?s8"
  let ?s10 = "re_sub match_ws [blank] ?s9"
  have "set ?s1 \<subseteq> set s \<union> ?A" using re_sub_set [of match_div "[newline]" s] by auto
  then have "set ?s2 \<subseteq> set s \<union> ?A" using replace_set [of "''</div>''" "[]" ?s1] by auto
  then have "set ?s3 \<subseteq> set s \<union> ?A" using re_sub_set [of match_br "[newline]" ?s2] by auto
  then have "set ?s4 \<subseteq> set s \<union> ?A" using re_sub_set [of match_tag "[]" ?s3] by auto
  then have "set ?s5 \<subseteq> set s \<union> ?A" using replace_set [of "''&nbsp;''" "[blank]" ?s4] by auto
  then have "set ?s6 \<subseteq> set s \<union> ?A"
    using re_sub_set [of match_quoted quoted_repl ?s5] by (auto simp: quoted_repl_def)
  then have "set ?s7 \<subseteq> set s \<union> ?A"
    using re_sub_set [of match_quoted quoted_repl ?s6] by (auto simp: quoted_repl_def)
  then have "set ?s8 \<subseteq> set s \<union> ?A"
    using replace_set [of "[bslash, CHR ''n'']" "[newline]" ?s7] by auto
  then have "set ?s9 \<subseteq> set s \<union> ?A"
    using replace_set [of "[bslash, dquote]" "[dquote]" ?s8] by auto
  then have "set ?s10 \<subseteq> set s \<union> ?A" using re_sub_set [of match_ws "[blank]" ?s9] by auto
  then have "set (strip ?s10) \<subseteq> set s \<union> ?A"
    using set_mono_sublist [OF strip_sublist [of ?s10]] by blast
  then show ?thesis by (simp only: clean_eq unescape_def strip_markup_def)
qed

lemma clean_no_bslash:
  "bslash \<notin> set s \<Longrightarrow> bslash \<notin> set (get_clean_content (Some s))"
  using clean_set [of s] by auto

lemma sublist_bslash: "sublist (bslash # u) t \<Longrightarrow> bslash \<in> set t"
  using set_mono_sublist [of "bslash # u" t] by auto

subsection \<open>A substitution that shortens the text wherever it matches\<close>

lemma re_sub_length_le:
  assumes "\<And>t k. m t = Some k \<Longrightarrow> length r \<le> k \<and> k \<le> length t"
  shows "length (re_sub m r s) \<le> length s"
proof (induction s rule: re_sub_cases [where m = m])
  case Nil
  show ?case by simp
next
  case (Skip c cs)
  then show ?case by (simp add: re_sub_skip)
next
  case (Match c cs n)
  from assms [OF Match.hyps] have "length r \<le> Suc n" "n \<le> length cs" by auto
  with Match.IH Match.hyps show ?case by (simp add: re_sub_match)
qed

lemma re_sub_same_length:
  assumes shorter: "\<And>t k. m t = Some k \<Longrightarrow> length r < k \<and> k \<le> length t"
  shows "length (re_sub m r s) = length s \<Longrightarrow> suffix t s \<Longrightarrow> t \<noteq> [] \<Longrightarrow> m t = None"
proof (induction s rule: re_sub_cases [where m = m])
  case Nil
  then show ?case by simp
next
  case (Skip c cs)
  from Skip.hyps shorter [of "c # cs" 0] have none: "m (c # cs) = None" by auto
  from Skip.prems(1) Skip.hyps have len: "length (re_sub m r cs) = length cs"
    by (simp add: re_sub_skip)
  from Skip.prems(2) have "t = c # cs \<or> suffix t cs" by (simp add: suffix_Cons)
  then show ?case
  proof
    assume "t = c # cs"
    with none show ?thesis by simp
  next
    assume "suffix t cs"
    with len Skip.prems(3) show ?thesis by (intro Skip.IH)
  qed
next
  case (Match c cs n)
  from shorter [OF Match.hyps] have "length r < Suc n" "n \<le> length cs" by auto
  moreover have "length (re_sub m r (drop n cs)) \<le> length (drop n cs)"
    by (rule re_sub_length_le) (use shorter in \<open>auto dest: less_imp_le\<close>)
  ultimately have "length (re_sub m r (c # cs)) < length (c # cs)"
    using Match.hyps by (simp add: re_sub_match)
  with Match.prems(1) show ?case by simp
qed

lemma re_sub_same_length_eq:
  assumes "\<And>t k. m t = Some k \<Longrightarrow> length r < k \<and> k \<le> length t"
    and "length (re_sub m r s) = length s"
  shows "re_sub m r s = s"
  by (rule re_sub_no_match) (rule re_sub_same_length [OF assms])

lemma match_literal_bounds:
  "match_literal old t = Some k \<Longrightarrow> k = length old \<and> k \<le> length t"
  by (auto simp: match_literal_def prefix_def split: if_splits)

lemma match_quoted_bounds: "match_quoted t = Some k \<Longrightarrow> k = 5 \<and> k \<le> length t"
  by (auto simp: match_quoted_def split: list.splits if_splits)

lemma match_quoted_shorter:
  "match_quoted t = Some k \<Longrightarrow> length quoted_repl < k \<and> k \<le> length t"
  using match_quoted_bounds [of t k] by (simp add: quoted_repl_def)

lemma match_literal_shorter:
  "length new < length old \<Longrightarrow> match_literal old t = Some k \<Longrightarrow> length new < k \<and> k \<le> length t"
  using match_literal_bounds [of old t k] by simp

lemma match_ws_bounds: "match_ws t = Some k \<Longrightarrow> 1 \<le> k \<and> k \<le> length t"
proof -
  assume "match_ws t = Some k"
  then have "k = length (takeWhile isspace t)" "k \<noteq> 0"
    by (auto simp: match_ws_def Let_def split: if_splits)
  then show ?thesis using length_takeWhile_le [of isspace t] by (cases k) auto
qed

lemma replace_same_length:
  assumes "length new < length old" and "length (replace old new s) = length s"
  shows "\<not> sublist old s"
proof
  assume "sublist old s"
  then obtain t where t: "suffix t s" "prefix old t" by (auto simp: sublist_altdef')
  from assms(1) t(2) have ne: "t \<noteq> []" by auto
  have "match_literal old t = None"
  proof (rule re_sub_same_length [where r = new and s = s])
    show "length (re_sub (match_literal old) new s) = length s"
      using assms(2) by (simp add: replace_def)
    show "length new < k \<and> k \<le> length u" if "match_literal old u = Some k" for u k
      using assms(1) that by (rule match_literal_shorter)
  qed (use t ne in auto)
  with t(2) show False by (simp add: match_literal_def)
qed

lemma fixed_has_no_escape:
  assumes fp: "get_clean_content (Some y) = y"
    and tag: "no_tag y" and nbsp: "\<not> sublist ''&nbsp;'' y"
  shows "\<not> sublist [bslash, dquote] y \<and> \<not> sublist [bslash, CHR ''n''] y"
proof -
  let ?a = "re_sub match_quoted quoted_repl y"
  let ?b = "re_sub match_quoted quoted_repl ?a"
  let ?c = "replace [bslash, CHR ''n''] [newline] ?b"
  let ?d = "replace [bslash, dquote] [dquote] ?c"
  let ?e = "re_sub match_ws [blank] ?d"
  have u: "unescape (strip_markup y) = ?d"
    by (simp add: unescape_def strip_markup_no_tag [OF tag] replace_no_occurrence [OF nbsp])
  have q: "length (re_sub match_quoted quoted_repl s) \<le> length s" for s
  proof (rule re_sub_length_le)
    fix t k assume "match_quoted t = Some k"
    from match_quoted_shorter [OF this]
    show "length quoted_repl \<le> k \<and> k \<le> length t" by simp
  qed
  have r: "length (replace [bslash, x] [x'] s) \<le> length s" for x x' s
    unfolding replace_def
  proof (rule re_sub_length_le)
    fix t k assume "match_literal [bslash, x] t = Some k"
    from match_literal_bounds [OF this]
    show "length [x'] \<le> k \<and> k \<le> length t" by simp
  qed
  have w: "length (re_sub match_ws [blank] s) \<le> length s" for s
  proof (rule re_sub_length_le)
    fix t k assume "match_ws t = Some k"
    from match_ws_bounds [OF this]
    show "length [blank] \<le> k \<and> k \<le> length t" by simp
  qed
  have "length (strip ?e) \<le> length ?e" using strip_sublist by (rule sublist_length_le)
  moreover have "strip ?e = y" using fp by (simp add: clean_eq u)
  ultimately have e: "length y \<le> length ?e" by simp
  have ed: "length ?e \<le> length ?d" by (rule w)
  have dc: "length ?d \<le> length ?c" by (rule r)
  have cb: "length ?c \<le> length ?b" by (rule r)
  have ba: "length ?b \<le> length ?a" by (rule q)
  have ay: "length ?a \<le> length y" by (rule q)
  from e ed dc cb ba ay have "length ?a = length y" by linarith
  with match_quoted_shorter have a: "?a = y"
    by (rule re_sub_same_length_eq)
  from e ed dc cb a have "length ?c = length y" by simp
  then have c: "\<not> sublist [bslash, CHR ''n''] y"
    using a by (intro replace_same_length [where new = "[newline]"]) simp_all
  then have c': "?c = y" using a by (simp add: replace_no_occurrence)
  from e ed dc c' have "length ?d = length y" by simp
  then have d: "\<not> sublist [bslash, dquote] y"
    using c' by (intro replace_same_length [where new = "[dquote]"]) simp_all
  from c d show ?thesis by blast
qed

text \<open>
  C4, as the code has it. Cleaning a cleaned text again gives the same text exactly when
  the cleaned text contains no backslash followed by a double quote or by the letter n;
  in particular it does for every input without a backslash.
\<close>

theorem clean_idempotent_iff:
  "(get_clean_content (Some (get_clean_content content)) = get_clean_content content
      \<longleftrightarrow> \<not> sublist [bslash, dquote] (get_clean_content content)
          \<and> \<not> sublist [bslash, CHR ''n''] (get_clean_content content))
   \<and> ((\<forall>s. content = Some s \<longrightarrow> bslash \<notin> set s) \<longrightarrow>
        get_clean_content (Some (get_clean_content content)) = get_clean_content content)"
proof (cases content)
  case None
  then show ?thesis by (simp add: get_clean_content_def)
next
  case (Some s)
  let ?y = "get_clean_content (Some s)"
  have 1: "get_clean_content (Some ?y) = ?y"
    if "\<not> sublist [bslash, dquote] ?y \<and> \<not> sublist [bslash, CHR ''n''] ?y"
    using that by (intro clean_twice) blast+
  have 2: "\<not> sublist [bslash, dquote] ?y \<and> \<not> sublist [bslash, CHR ''n''] ?y"
    if "get_clean_content (Some ?y) = ?y"
    using that clean_no_tag clean_no_nbsp by (rule fixed_has_no_escape)
  have 3: "get_clean_content (Some ?y) = ?y" if "bslash \<notin> set s"
  proof (rule 1)
    from that have "bslash \<notin> set ?y" by (rule clean_no_bslash)
    then show "\<not> sublist [bslash, dquote] ?y \<and> \<not> sublist [bslash, CHR ''n''] ?y"
      using sublist_bslash by blast
  qed
  from 1 2 3 show ?thesis unfolding Some by blast
qed

theorem clean_idempotent_iff_witness:
  "bslash \<notin> set ''<div>A</div><br>B''
   \<and> get_clean_content (Some ''<div>A</div><br>B'') = ''A B''
   \<and> \<not> sublist [bslash, dquote] ''A B'' \<and> \<not> sublist [bslash, CHR ''n''] ''A B''
   \<and> get_clean_content (Some (get_clean_content (Some ''<div>A</div><br>B''))) = ''A B''"
proof -
  have h: "bslash \<notin> set ''<div>A</div><br>B''" by simp
  have e: "get_clean_content (Some ''<div>A</div><br>B'') = ''A B''" by code_simp
  from clean_idempotent_iff [of "Some ''<div>A</div><br>B''"] h
  have "get_clean_content (Some (get_clean_content (Some ''<div>A</div><br>B'')))
          = get_clean_content (Some ''<div>A</div><br>B'')"
    and "\<not> sublist [bslash, dquote] (get_clean_content (Some ''<div>A</div><br>B''))
          \<and> \<not> sublist [bslash, CHR ''n''] (get_clean_content (Some ''<div>A</div><br>B''))"
    by blast+
  with h e show ?thesis by simp
qed

text \<open>
  Of two backslashes before a double quote the first pass removes one and the second
  pass the other.
\<close>

theorem clean_not_idempotent_counterexample:
  "get_clean_content (Some [CHR ''a'', bslash, bslash, dquote, CHR ''b''])
     = [CHR ''a'', bslash, dquote, CHR ''b'']
   \<and> get_clean_content
       (Some (get_clean_content (Some [CHR ''a'', bslash, bslash, dquote, CHR ''b''])))
     = [CHR ''a'', dquote, CHR ''b'']"
  by code_simp

end
